theory Spec2Isabelle
  imports Main "HOL-Library.Word"
begin

unbundle bit_operations_syntax

section \<open>Data model of \<open>src/mongodb.js\<close>\<close>

subsection \<open>Module constants (\<open>settings\<close>, lines 4-9)\<close>

definition housekeepingMillis :: int where "housekeepingMillis = 30000"
definition responseMillis :: int where "responseMillis = 10000"
definition deadlineMillis :: int where "deadlineMillis = 25000"
definition defaultTtlMillis :: int where "defaultTtlMillis = 60000"

subsection \<open>Plugin options (the schema of the plugin, read by \<open>MongoDb\<close>)\<close>

text \<open>
  The numeric options are integers here; \<open>flushSecs\<close> and \<open>ttlSecs\<close> are tested against
  \<open>null\<close> by \<open>start\<close>, so they are optional.
\<close>

record options =
  apiUrl :: string
  apiKey :: string
  apiMethod :: string
  batchSize :: int
  flushSecs :: "int option"
  maxBuffer :: int
  ttlSecs :: "int option"

subsection \<open>Data points\<close>

text \<open>
  A point is the caller's payload object. The class reads and writes three of its
  properties: \<open>time\<close> (kept when the caller supplied one, otherwise the clock reading),
  \<open>expiry\<close> and \<open>uid\<close>; everything else is the opaque \<open>payload\<close>. A missing property
  (\<open>undefined\<close>) is \<open>None\<close>. Dates are milliseconds since the epoch.
\<close>

datatype timeval = Supplied string | Stamped int

record 'a point =
  payload :: 'a
  time :: "timeval option"
  expiry :: "int option"
  uid :: "int option"

subsection \<open>The JavaScript \<open>Map\<close> holding the buffer\<close>

text \<open>
  A \<open>Map\<close> is the list of its entry records in insertion order. \<open>delete\<close> empties the
  record of the key and leaves the slot in place (\<open>None\<close>), \<open>set\<close> overwrites the value
  of a present key in place and appends a record for a new key, and an iterator is an
  index into the slots that skips the emptied ones. This is the semantics of
  ECMAScript's \<open>[[MapData]]\<close> list, which is what makes an iterator obtained before a
  deletion or an insertion continue correctly after it.
\<close>

type_synonym ('k, 'v) jsmap = "('k \<times> 'v) option list"

fun jsmap_entries :: "('k, 'v) jsmap \<Rightarrow> ('k \<times> 'v) list" where
  "jsmap_entries [] = []"
| "jsmap_entries (None # m) = jsmap_entries m"
| "jsmap_entries (Some e # m) = e # jsmap_entries m"

definition jsmap_size :: "('k, 'v) jsmap \<Rightarrow> nat" where
  "jsmap_size m = length (jsmap_entries m)"

definition jsmap_has :: "'k \<Rightarrow> ('k, 'v) jsmap \<Rightarrow> bool" where
  "jsmap_has k m = (k \<in> fst ` set (jsmap_entries m))"

definition jsmap_get :: "'k \<Rightarrow> ('k, 'v) jsmap \<Rightarrow> 'v option" where
  "jsmap_get k m = map_of (jsmap_entries m) k"

definition slot_has_key :: "'k \<Rightarrow> ('k \<times> 'v) option \<Rightarrow> bool" where
  "slot_has_key k slot = (case slot of None \<Rightarrow> False | Some (k', v) \<Rightarrow> k' = k)"

definition jsmap_set :: "'k \<Rightarrow> 'v \<Rightarrow> ('k, 'v) jsmap \<Rightarrow> ('k, 'v) jsmap" where
  "jsmap_set k v m =
     (if jsmap_has k m
      then map (\<lambda>slot. if slot_has_key k slot then Some (k, v) else slot) m
      else m @ [Some (k, v)])"

definition jsmap_delete :: "'k \<Rightarrow> ('k, 'v) jsmap \<Rightarrow> ('k, 'v) jsmap" where
  "jsmap_delete k m = map (\<lambda>slot. if slot_has_key k slot then None else slot) m"

text \<open>
  \<open>iterator.next()\<close> from slot index \<open>i\<close>: the next non-empty record at or after \<open>i\<close>
  together with the index that follows it, or \<open>None\<close> when the slots are used up.
\<close>

function jsmap_next :: "nat \<Rightarrow> ('k, 'v) jsmap \<Rightarrow> (('k \<times> 'v) \<times> nat) option" where
  "jsmap_next i m =
     (if i < length m
      then (case m ! i of Some e \<Rightarrow> Some (e, Suc i) | None \<Rightarrow> jsmap_next (Suc i) m)
      else None)"
  by pat_completeness auto
termination
  by (relation "measure (\<lambda>(i, m). length m - i)") auto

declare jsmap_next.simps [simp del]

text \<open>
  The representation invariant of a \<open>Map\<close>: no two records hold the same key. Under it
  \<open>jsmap_delete\<close> empties at most one slot, as \<open>Map.prototype.delete\<close> does.
\<close>

definition jsmap_wf :: "('k, 'v) jsmap \<Rightarrow> bool" where
  "jsmap_wf m = distinct (map fst (jsmap_entries m))"

subsection \<open>The content hash of \<open>getPoint\<close> (lines 72-82)\<close>

text \<open>
  JavaScript numbers are modelled as mathematical integers, with the conversions of the
  bitwise operators written out: \<open>a ^ b\<close> converts both operands with \<open>ToInt32\<close> and
  yields a signed 32-bit value; \<open>x >>> 0\<close> is \<open>ToUint32\<close>.
\<close>

definition ToInt32 :: "int \<Rightarrow> int" where
  "ToInt32 x = (x + 2 ^ 31) mod 2 ^ 32 - 2 ^ 31"

definition ToUint32 :: "int \<Rightarrow> int" where
  "ToUint32 x = x mod 2 ^ 32"

definition js_xor :: "int \<Rightarrow> int \<Rightarrow> int" where
  "js_xor a b = ToInt32 a XOR ToInt32 b"

text \<open>
  \<open>while (i--) { const c = json.charCodeAt(i); ... }\<close>: the loop tests the old value of
  \<open>i\<close>, decrements, and reads the character at the decremented index, so the string is
  traversed from its last UTF-16 code unit to its first.
\<close>

fun hash_loop :: "16 word list \<Rightarrow> nat \<Rightarrow> int \<times> int \<Rightarrow> int \<times> int" where
  "hash_loop json 0 (hash1, hash2) = (hash1, hash2)"
| "hash_loop json (Suc i) (hash1, hash2) =
     (let c = uint (json ! i)
      in hash_loop json i (js_xor (hash1 * 33) c, js_xor (hash2 * 33) c))"

definition hash_uid :: "16 word list \<Rightarrow> int" where
  "hash_uid json =
     (case hash_loop json (length json) (5381, 52711) of
        (hash1, hash2) \<Rightarrow> ToUint32 hash1 * 4096 + ToUint32 hash2)"

text \<open>
  The fingerprint in the words of the specification: two 32-bit accumulators seeded 5381
  and 52711, each updated \<open>acc = (acc * 33) XOR c\<close> for each character code \<open>c\<close> of the
  serialised string, taken in the order of the string, combined as
  \<open>unsigned acc1 * 4096 + unsigned acc2\<close>.
\<close>

definition fingerprint_step :: "16 word \<Rightarrow> 32 word \<Rightarrow> 32 word" where
  "fingerprint_step c acc = (acc * 33) XOR ucast c"

definition spec_fingerprint :: "16 word list \<Rightarrow> int" where
  "spec_fingerprint cs =
     uint (fold fingerprint_step cs 5381) * 4096 + uint (fold fingerprint_step cs 52711)"

subsection \<open>The state of a \<open>MongoDb\<close> instance (lines 12-25)\<close>

text \<open>
  The buffer is keyed by \<open>point.uid\<close> as the source writes it (\<open>buffer.set(point.uid,
  point)\<close>), so a key is an optional number. \<open>options\<close> is \<open>null\<close> until \<open>start\<close>. The
  \<open>app\<close> object (the log) and the timer handle are not part of the state: what is logged
  is returned by each operation.
\<close>

record 'a mongodb =
  buffer :: "(int option, 'a point) jsmap"
  options :: "options option"
  flushExpiry :: int
  flushMillis :: int
  ttlMillis :: int
  flushing :: bool

datatype error =
    BufferExceeded nat
  | TypeError
  | ReferenceError
  | TransportFailure

subsection \<open>The transport (the superagent request of lines 171-181)\<close>

datatype http_method = GET | PUT | POST

record 'a request =
  req_method :: http_method
  req_url :: string
  req_headers :: "(string \<times> string) list"
  req_retry :: nat
  req_timeout_response :: int
  req_timeout_deadline :: int
  req_body :: "'a point list"

text \<open>
  What the awaited request gives back: a result object with a status, or a rejection
  (which \<open>await\<close> turns into a thrown error).
\<close>

datatype response = Resolved int | Rejected

subsection \<open>JavaScript numbers of the batch counter\<close>

text \<open>
  \<open>Math.floor(this.buffer.size / this.options.batchSize)\<close> is an integer for a non-zero
  batch size, and \<open>NaN\<close> (0/0) or \<open>Infinity\<close> (n/0) for a batch size of zero.
\<close>

datatype jsnum = Num int | Infinity | NaN

fun truthy :: "jsnum \<Rightarrow> bool" where
  "truthy (Num k) = (k \<noteq> 0)"
| "truthy Infinity = True"
| "truthy NaN = False"

fun js_inc :: "jsnum \<Rightarrow> jsnum" where
  "js_inc (Num k) = Num (k + 1)"
| "js_inc Infinity = Infinity"
| "js_inc NaN = NaN"

fun js_dec :: "jsnum \<Rightarrow> jsnum" where
  "js_dec (Num k) = Num (k - 1)"
| "js_dec Infinity = Infinity"
| "js_dec NaN = NaN"

definition floor_div :: "nat \<Rightarrow> int \<Rightarrow> jsnum" where
  "floor_div n d =
     (if d \<noteq> 0 then Num (int n div d) else if n = 0 then NaN else Infinity)"

subsection \<open>A flush suspended at its \<open>await\<close>\<close>

text \<open>
  The local variables of \<open>flush\<close> that are live across the \<open>await\<close>: the counter
  \<open>batches\<close> (already decremented by the loop test), the iterator over the buffer
  (\<open>None\<close> once it has reported the end), and the batch in flight.
\<close>

record 'a task =
  batches :: jsnum
  bufferIterator :: "nat option"
  batch :: "'a point list"

text \<open>
  How a call of \<open>flush\<close>, or its resumption, ends: it returned at once because a flush was
  in progress; it ran to its \<open>finally\<close> block (with the error its \<open>catch\<close> logged, if
  any); or it is suspended on a request it has just issued.
\<close>

datatype 'a outcome =
    Returned
  | Finished "error option"
  | Awaiting "'a task" "'a request"

datatype 'a sent = Dropped error | Buffered | Flushed "'a outcome"

section \<open>Operations\<close>

text \<open>
  Every operation takes the clock reading \<open>now\<close> of the synchronous step it runs in. The
  source calls \<open>new Date()\<close> several times within such a step; the model uses the one
  reading for all of them. A flush that is resumed after its \<open>await\<close> runs in a later
  step, with the reading of that step.
\<close>

subsection \<open>\<open>constructor\<close> and \<open>start\<close> (lines 14-45)\<close>

definition MongoDb :: "int \<Rightarrow> 'a mongodb" where
  "MongoDb now =
     \<lparr>buffer = [], options = None, flushExpiry = now, flushMillis = 0,
      ttlMillis = defaultTtlMillis, flushing = False\<rparr>"

definition start :: "int \<Rightarrow> options \<Rightarrow> 'a mongodb \<Rightarrow> 'a mongodb" where
  "start now opts s =
     (let s1 = s\<lparr>options := Some opts\<rparr>;
          s2 = (case ttlSecs opts of None \<Rightarrow> s1 | Some t \<Rightarrow> s1\<lparr>ttlMillis := t * 1000\<rparr>)
      in case flushSecs opts of
           None \<Rightarrow> s2
         | Some f \<Rightarrow>
             if f > 0
             then s2\<lparr>flushMillis := f * 1000, flushExpiry := now + f * 1000\<rparr>
             else s2)"

subsection \<open>\<open>getPoint\<close> (lines 60-90)\<close>

text \<open>
  \<open>JSON.stringify\<close> is a parameter: it gives the UTF-16 code units of the serialised
  point, or \<open>None\<close> when it throws. \<open>getPoint\<close> then returns \<open>null\<close>.
\<close>

text \<open>Lines 65-70: the point with \<open>time\<close> defaulted and \<open>expiry\<close> set.\<close>

definition stamped :: "int \<Rightarrow> 'a mongodb \<Rightarrow> 'a point \<Rightarrow> 'a point" where
  "stamped now s point =
     (let point1 = (if time point = None then point\<lparr>time := Some (Stamped now)\<rparr> else point)
      in point1\<lparr>expiry := Some (now + ttlMillis s)\<rparr>)"

definition getPoint ::
  "('a point \<Rightarrow> 16 word list option) \<Rightarrow> int \<Rightarrow> 'a mongodb \<Rightarrow> 'a point \<Rightarrow> 'a point option" where
  "getPoint stringify now s point =
     (case stringify (stamped now s point) of
        None \<Rightarrow> None
      | Some json \<Rightarrow> Some ((stamped now s point)\<lparr>uid := Some (hash_uid json)\<rparr>))"

subsection \<open>\<open>flush\<close> (lines 139-204)\<close>

lemma jsmap_next_bounds:
  "jsmap_next i m = Some (e, j) \<Longrightarrow> i < j \<and> j \<le> length m"
proof (induction i m rule: jsmap_next.induct)
  case (1 i m)
  show ?case
  proof (cases "i < length m")
    case False
    with "1.prems" show ?thesis by (simp add: jsmap_next.simps)
  next
    case True
    show ?thesis
    proof (cases "m ! i")
      case None
      with True "1.prems" have "jsmap_next (Suc i) m = Some (e, j)"
        by (simp add: jsmap_next.simps [of i])
      with "1.IH" True None show ?thesis by fastforce
    next
      case (Some a)
      with True "1.prems" show ?thesis by (auto simp: jsmap_next.simps [of i])
    qed
  qed
qed

text \<open>
  The inner loop, \<open>let c = batchSize; while (c--) { point = bufferIterator.next().value;
  if (point == null) break; batch.push(point[1]) }\<close>. An iterator that has reported the
  end stays at the end.
\<close>

function fill_batch ::
  "int \<Rightarrow> nat option \<Rightarrow> ('k, 'v) jsmap \<Rightarrow> 'v list \<Rightarrow> 'v list \<times> nat option" where
  "fill_batch c it m acc =
     (if c = 0 then (acc, it)
      else case it of
             None \<Rightarrow> (acc, None)
           | Some i \<Rightarrow>
               (case jsmap_next i m of
                  None \<Rightarrow> (acc, None)
                | Some (e, j) \<Rightarrow> fill_batch (c - 1) (Some j) m (acc @ [snd e])))"
  by pat_completeness auto
termination
  by (relation "measure (\<lambda>(c, it, m, acc). case it of None \<Rightarrow> 0 | Some i \<Rightarrow> Suc (length m) - i)")
     (auto dest: jsmap_next_bounds)

declare fill_batch.simps [simp del]

text \<open>\<open>batch.forEach(point => { this.buffer.delete(point.uid) })\<close>\<close>

definition delete_batch ::
  "'a point list \<Rightarrow> (int option, 'a point) jsmap \<Rightarrow> (int option, 'a point) jsmap" where
  "delete_batch b m = fold (\<lambda>point m'. jsmap_delete (uid point) m') b m"

definition put_request :: "options \<Rightarrow> 'a point list \<Rightarrow> 'a request" where
  "put_request opts b =
     \<lparr>req_method = PUT,
      req_url = apiUrl opts,
      req_headers =
        [(''Content-Type'', ''application/json''), (''accept'', ''json''),
         (''api-key'', apiKey opts)],
      req_retry = 2,
      req_timeout_response = responseMillis,
      req_timeout_deadline = deadlineMillis,
      req_body = b\<rparr>"

text \<open>The \<open>finally\<close> block.\<close>

definition flush_finally :: "int \<Rightarrow> 'a mongodb \<Rightarrow> 'a mongodb" where
  "flush_finally now s = s\<lparr>flushExpiry := now + flushMillis s, flushing := False\<rparr>"

text \<open>
  The loop \<open>while (batches--)\<close> from its test up to the \<open>await\<close> of the request, or to
  the \<open>finally\<close> block when the counter has run out.
\<close>

definition flush_loop ::
  "int \<Rightarrow> jsnum \<Rightarrow> nat option \<Rightarrow> 'a mongodb \<Rightarrow> 'a outcome \<times> 'a mongodb" where
  "flush_loop now n it s =
     (if truthy n
      then (case options s of
              None \<Rightarrow> (Finished (Some TypeError), flush_finally now s)
            | Some opts \<Rightarrow>
                (case fill_batch (batchSize opts) it (buffer s) [] of
                   (b, it') \<Rightarrow>
                     (Awaiting \<lparr>batches = js_dec n, bufferIterator = it', batch = b\<rparr>
                        (put_request opts b), s)))
      else (Finished None, flush_finally now s))"

text \<open>A call of \<open>flush\<close>, up to its first \<open>await\<close> or to its end.\<close>

definition flush :: "int \<Rightarrow> 'a mongodb \<Rightarrow> 'a outcome \<times> 'a mongodb" where
  "flush now s =
     (if flushing s then (Returned, s)
      else
        (let s1 = s\<lparr>flushing := True\<rparr>
         in case options s1 of
              None \<Rightarrow> (Finished (Some TypeError), flush_finally now s1)
            | Some opts \<Rightarrow>
                (let n = floor_div (jsmap_size (buffer s1)) (batchSize opts);
                     n' = (if now > flushExpiry s1 then js_inc n else n)
                 in flush_loop now n' (Some 0) s1)))"

text \<open>
  The continuation of a suspended flush when its request settles. A rejection is caught
  by the \<open>catch\<close> block. A result outside 200..299 reaches the \<open>else\<close> branch of line 192,
  whose log message reads the variable \<open>error\<close>, which is declared nowhere: the
  \<open>ReferenceError\<close> is caught by the same \<open>catch\<close> block.
\<close>

definition flush_resume ::
  "int \<Rightarrow> response \<Rightarrow> 'a task \<Rightarrow> 'a mongodb \<Rightarrow> 'a outcome \<times> 'a mongodb" where
  "flush_resume now r t s =
     (case r of
        Rejected \<Rightarrow> (Finished (Some TransportFailure), flush_finally now s)
      | Resolved status \<Rightarrow>
          if 200 \<le> status \<and> status < 300
          then flush_loop now (batches t) (bufferIterator t)
                 (s\<lparr>buffer := delete_batch (batch t) (buffer s)\<rparr>)
          else (Finished (Some ReferenceError), flush_finally now s))"

subsection \<open>\<open>send\<close> (lines 93-117)\<close>

definition send ::
  "('a point \<Rightarrow> 16 word list option) \<Rightarrow> int \<Rightarrow> 'a point \<Rightarrow> 'a mongodb \<Rightarrow> 'a sent \<times> 'a mongodb" where
  "send stringify now point s =
     (case options s of
        None \<Rightarrow> (Dropped TypeError, s)
      | Some opts \<Rightarrow>
          if int (jsmap_size (buffer s)) \<ge> maxBuffer opts
          then (Dropped (BufferExceeded (jsmap_size (buffer s))), s)
          else
            (case getPoint stringify now s point of
               None \<Rightarrow> (Dropped TypeError, s)
             | Some p \<Rightarrow>
                 (let s1 = s\<lparr>buffer := jsmap_set (uid p) p (buffer s)\<rparr>
                  in if int (jsmap_size (buffer s1)) \<ge> batchSize opts \<or> now > flushExpiry s1
                     then (case flush now s1 of (oc, s2) \<Rightarrow> (Flushed oc, s2))
                     else (Buffered, s1))))"

subsection \<open>\<open>housekeeping\<close> (lines 120-135)\<close>

text \<open>\<open>timeNow > point.expiry\<close>; a comparison with \<open>undefined\<close> is false.\<close>

definition stale :: "int \<Rightarrow> 'a point \<Rightarrow> bool" where
  "stale timeNow point = (case expiry point of None \<Rightarrow> False | Some e \<Rightarrow> timeNow > e)"

lemma length_jsmap_delete: "length (jsmap_delete k m) = length m"
  by (simp add: jsmap_delete_def)

text \<open>
  \<open>for (const [key, point] of this.buffer) { if (timeNow > point.expiry)
  this.buffer.delete(key) }\<close>, with the iterator of the \<open>for-of\<close> at slot \<open>i\<close>.
\<close>

function housekeeping_loop ::
  "int \<Rightarrow> nat \<Rightarrow> ('k, 'a point) jsmap \<Rightarrow> ('k, 'a point) jsmap" where
  "housekeeping_loop timeNow i m =
     (case jsmap_next i m of
        None \<Rightarrow> m
      | Some ((key, point), j) \<Rightarrow>
          housekeeping_loop timeNow j (if stale timeNow point then jsmap_delete key m else m))"
  by pat_completeness auto
termination
  by (relation "measure (\<lambda>(timeNow, i, m). length m - i)")
     (auto dest: jsmap_next_bounds simp: length_jsmap_delete)

declare housekeeping_loop.simps [simp del]

definition housekeeping :: "int \<Rightarrow> 'a mongodb \<Rightarrow> 'a outcome option \<times> 'a mongodb" where
  "housekeeping now s =
     (let s1 = s\<lparr>buffer := housekeeping_loop now 0 (buffer s)\<rparr>
      in if now > flushExpiry s1
         then (case flush now s1 of (oc, s2) \<Rightarrow> (Some oc, s2))
         else (None, s1))"

subsection \<open>\<open>stop\<close> (lines 47-57)\<close>

definition stop :: "int \<Rightarrow> 'a mongodb \<Rightarrow> 'a outcome \<times> 'a mongodb" where
  "stop now s = flush now s"

section \<open>The event loop around an instance\<close>

text \<open>
  The callers of the class: the feed delivers points (\<open>send\<close>), the interval timer
  fires (\<open>housekeeping\<close>), the plugin stops (\<open>stop\<close>), and a request that a suspended
  flush awaits settles with a response. Every event carries the clock reading of the
  synchronous step it starts. The system records the flushes suspended at their \<open>await\<close>
  and every request issued so far.
\<close>

datatype 'a event =
    Send int "'a point"
  | Housekeeping int
  | Stop int
  | Settle nat int response

record 'a system =
  db :: "'a mongodb"
  suspended :: "'a task list"
  issued :: "'a request list"

fun absorb :: "'a outcome \<Rightarrow> 'a system \<Rightarrow> 'a system" where
  "absorb (Awaiting t r) sys = sys\<lparr>suspended := suspended sys @ [t], issued := issued sys @ [r]\<rparr>"
| "absorb Returned sys = sys"
| "absorb (Finished e) sys = sys"

definition step ::
  "('a point \<Rightarrow> 16 word list option) \<Rightarrow> 'a system \<Rightarrow> 'a event \<Rightarrow> 'a system" where
  "step stringify sys ev =
     (case ev of
        Send now point \<Rightarrow>
          (case send stringify now point (db sys) of
             (Flushed oc, s') \<Rightarrow> absorb oc (sys\<lparr>db := s'\<rparr>)
           | (_, s') \<Rightarrow> sys\<lparr>db := s'\<rparr>)
      | Housekeeping now \<Rightarrow>
          (case housekeeping now (db sys) of
             (Some oc, s') \<Rightarrow> absorb oc (sys\<lparr>db := s'\<rparr>)
           | (None, s') \<Rightarrow> sys\<lparr>db := s'\<rparr>)
      | Stop now \<Rightarrow>
          (case stop now (db sys) of (oc, s') \<Rightarrow> absorb oc (sys\<lparr>db := s'\<rparr>))
      | Settle i now r \<Rightarrow>
          if i < length (suspended sys)
          then (case flush_resume now r (suspended sys ! i) (db sys) of
                  (oc, s') \<Rightarrow>
                    absorb oc
                      (sys\<lparr>db := s',
                           suspended := take i (suspended sys) @ drop (Suc i) (suspended sys)\<rparr>))
          else sys)"

definition run ::
  "('a point \<Rightarrow> 16 word list option) \<Rightarrow> 'a event list \<Rightarrow> 'a system \<Rightarrow> 'a system" where
  "run stringify evs sys = foldl (step stringify) sys evs"

definition boot :: "int \<Rightarrow> options \<Rightarrow> 'a system" where
  "boot now opts = \<lparr>db = start now opts (MongoDb now), suspended = [], issued = []\<rparr>"

section \<open>Invariants\<close>

text \<open>
  Every buffered point is stored under its own \<open>uid\<close>, the options are set, and the
  buffer holds at most \<open>maxBuffer\<close> points; at most one flush is suspended, and the
  \<open>flushing\<close> flag is up exactly while one is.
\<close>

definition buffer_ok :: "(int option, 'a point) jsmap \<Rightarrow> bool" where
  "buffer_ok m = (jsmap_wf m \<and> (\<forall>e \<in> set (jsmap_entries m). uid (snd e) = fst e))"

definition db_ok :: "options \<Rightarrow> 'a mongodb \<Rightarrow> bool" where
  "db_ok opts s =
     (options s = Some opts \<and> buffer_ok (buffer s) \<and>
      int (jsmap_size (buffer s)) \<le> maxBuffer opts)"

definition exclusive :: "'a system \<Rightarrow> bool" where
  "exclusive sys =
     (length (suspended sys) \<le> 1 \<and> (flushing (db sys) \<longleftrightarrow> suspended sys \<noteq> []))"

subsection \<open>The progress of a flush\<close>

text \<open>
  The entries an iterator at slot \<open>i\<close> has still to visit, and the \<open>i\<close>-th run of \<open>k\<close>
  points of a list of entries.
\<close>

definition pending :: "nat \<Rightarrow> ('k, 'v) jsmap \<Rightarrow> ('k \<times> 'v) list" where
  "pending i m = jsmap_entries (drop i m)"

definition chunk :: "nat \<Rightarrow> ('k \<times> 'v) list \<Rightarrow> nat \<Rightarrow> 'v list" where
  "chunk k es i = map snd (take k (drop (i * k) es))"

text \<open>
  A flush that planned \<open>B\<close> batches over the entries \<open>es\<close>, with \<open>req0\<close> issued
  before it, is awaiting the response to its \<open>j\<close>-th request: the earlier batches are
  gone from the buffer, the \<open>j\<close>-th is in flight, and the iterator stands behind it. A
  flush is done when all \<open>B\<close> batches are gone and nothing is suspended.
\<close>

definition awaiting_batch ::
  "options \<Rightarrow> (int option \<times> 'a point) list \<Rightarrow> nat \<Rightarrow> 'a request list \<Rightarrow> nat \<Rightarrow> 'a system \<Rightarrow> bool" where
  "awaiting_batch opts es B req0 j sys =
     (1 \<le> j \<and> j \<le> B \<and> options (db sys) = Some opts \<and> flushing (db sys) \<and>
      buffer_ok (buffer (db sys)) \<and>
      jsmap_entries (buffer (db sys)) = drop ((j - 1) * nat (batchSize opts)) es \<and>
      issued sys =
        req0 @ map (\<lambda>i. put_request opts (chunk (nat (batchSize opts)) es i)) [0..<j] \<and>
      (\<exists>it. suspended sys =
              [\<lparr>batches = Num (int (B - j)), bufferIterator = it,
                batch = chunk (nat (batchSize opts)) es (j - 1)\<rparr>] \<and>
            (j < B \<longrightarrow>
               (\<exists>p. it = Some p \<and>
                  pending p (buffer (db sys)) = drop (j * nat (batchSize opts)) es))))"

definition flush_done ::
  "options \<Rightarrow> (int option \<times> 'a point) list \<Rightarrow> nat \<Rightarrow> 'a request list \<Rightarrow> 'a system \<Rightarrow> bool" where
  "flush_done opts es B req0 sys =
     (suspended sys = [] \<and> \<not> flushing (db sys) \<and> options (db sys) = Some opts \<and>
      buffer_ok (buffer (db sys)) \<and>
      jsmap_entries (buffer (db sys)) = drop (B * nat (batchSize opts)) es \<and>
      issued sys =
        req0 @ map (\<lambda>i. put_request opts (chunk (nat (batchSize opts)) es i)) [0..<B])"

section \<open>Sample data\<close>

text \<open>
  A stand-in for \<open>JSON.stringify\<close> on points whose payload is already a sequence of
  code units: the payload followed by one code unit for the expiry. It fails on a point
  without expiry.
\<close>

definition sample_stringify :: "16 word list point \<Rightarrow> 16 word list option" where
  "sample_stringify p =
     (case expiry p of
        None \<Rightarrow> None
      | Some e \<Rightarrow> Some (payload p @ [word_of_int e]))"

definition sample_options :: options where
  "sample_options =
     \<lparr>apiUrl = ''https://example.org/endpoint'', apiKey = ''secret'', apiMethod = ''POST'',
      batchSize = 100, flushSecs = Some 60, maxBuffer = 2, ttlSecs = Some 180\<rparr>"

definition sample_point :: "16 word list \<Rightarrow> 16 word list point" where
  "sample_point x = \<lparr>payload = x, time = None, expiry = None, uid = None\<rparr>"

definition two_buffered :: "16 word list system" where
  "two_buffered = run sample_stringify [Send 1 (sample_point [97]), Send 2 (sample_point [98])] (boot 0 sample_options)"

definition sample_idle :: "16 word list mongodb" where
  "sample_idle = db (boot 0 sample_options)"

definition sample_busy :: "16 word list mongodb" where
  "sample_busy = sample_idle\<lparr>flushing := True\<rparr>"

text \<open>One point sent after the flush deadline: the flush it triggers is awaiting its request.\<close>

definition sample_inflight :: "16 word list system" where
  "sample_inflight = run sample_stringify [Send 70000 (sample_point [97])] (boot 0 sample_options)"

text \<open>Five points with a batch size of five: the fifth \<open>send\<close> triggers the flush.\<close>

definition sample_five :: "16 word list system" where
  "sample_five =
     run sample_stringify
       [Send 1 (sample_point [97]), Send 2 (sample_point [98]), Send 3 (sample_point [99]),
        Send 4 (sample_point [100]), Send 5 (sample_point [101])]
       (boot 0 (sample_options\<lparr>batchSize := 5, maxBuffer := 10\<rparr>))"

text \<open>One point buffered, no flush in progress.\<close>

definition sample_one :: "16 word list system" where
  "sample_one = run sample_stringify [Send 1 (sample_point [97])] (boot 0 sample_options)"

text \<open>
  A point that differs from \<open>sample_point [97]\<close> only in a property the stand-in
  serialiser does not write.
\<close>

definition sample_timed :: "16 word list point" where
  "sample_timed = (sample_point [97])\<lparr>time := Some (Supplied ''2022-10-20T17:36:16.565Z'')\<rparr>"

text \<open>The sample options with periodic flushing switched off.\<close>

definition sample_no_periodic :: options where
  "sample_no_periodic = sample_options\<lparr>flushSecs := Some 0\<rparr>"

text \<open>
  Twenty-five points behind a failed flush: with a batch size of 10, the tenth \<open>send\<close>
  starts a flush, fifteen more points arrive while its request is in flight, and the
  request is then rejected.
\<close>

definition sample_backlog :: "16 word list system" where
  "sample_backlog =
     run sample_stringify
       (map (\<lambda>i. Send (int i) (sample_point [of_nat i])) [1..<26] @ [Settle 0 26 Rejected])
       (boot 0 (sample_options\<lparr>batchSize := 10, maxBuffer := 100\<rparr>))"

section \<open>Facts about \<open>flush\<close>\<close>

lemma flush_finally_simps [simp]:
  "buffer (flush_finally now s) = buffer s"
  "options (flush_finally now s) = options s"
  "flushing (flush_finally now s) = False"
  "flushExpiry (flush_finally now s) = now + flushMillis s"
  "flushMillis (flush_finally now s) = flushMillis s"
  "ttlMillis (flush_finally now s) = ttlMillis s"
  by (simp_all add: flush_finally_def)

lemma flush_loop_cases:
  "(\<exists>e. flush_loop now n it s = (Finished e, flush_finally now s)) \<or>
   (\<exists>t r. flush_loop now n it s = (Awaiting t r, s))"
  by (auto simp: flush_loop_def split: option.splits prod.splits)

section \<open>Facts about the Map model\<close>

lemma jsmap_entries_append:
  "jsmap_entries (m @ m') = jsmap_entries m @ jsmap_entries m'"
  by (induction m rule: jsmap_entries.induct) simp_all

lemma jsmap_entries_delete:
  "jsmap_entries (jsmap_delete k m) = filter (\<lambda>e. fst e \<noteq> k) (jsmap_entries m)"
  by (induction m rule: jsmap_entries.induct)
     (auto simp: jsmap_delete_def slot_has_key_def)

lemma jsmap_entries_set_present:
  "jsmap_entries (map (\<lambda>slot. if slot_has_key k slot then Some (k, v) else slot) m) =
   map (\<lambda>e. if fst e = k then (k, v) else e) (jsmap_entries m)"
  by (induction m rule: jsmap_entries.induct) (auto simp: slot_has_key_def)

lemma jsmap_entries_set:
  "jsmap_entries (jsmap_set k v m) =
     (if jsmap_has k m
      then map (\<lambda>e. if fst e = k then (k, v) else e) (jsmap_entries m)
      else jsmap_entries m @ [(k, v)])"
  by (simp add: jsmap_set_def jsmap_entries_set_present jsmap_entries_append)

lemma jsmap_size_set:
  "jsmap_size (jsmap_set k v m) = (if jsmap_has k m then jsmap_size m else Suc (jsmap_size m))"
  by (simp add: jsmap_size_def jsmap_entries_set)

lemma jsmap_size_delete: "jsmap_size (jsmap_delete k m) \<le> jsmap_size m"
  by (simp add: jsmap_size_def jsmap_entries_delete)

lemma drop_jsmap_delete: "drop i (jsmap_delete k m) = jsmap_delete k (drop i m)"
  by (simp add: jsmap_delete_def drop_map)

lemma take_jsmap_delete: "take i (jsmap_delete k m) = jsmap_delete k (take i m)"
  by (simp add: jsmap_delete_def take_map)

lemma jsmap_next_None:
  "jsmap_next i m = None \<Longrightarrow> jsmap_entries (drop i m) = []"
proof (induction i m rule: jsmap_next.induct)
  case (1 i m)
  show ?case
  proof (cases "i < length m")
    case False
    then show ?thesis by simp
  next
    case True
    with "1.prems" have none: "m ! i = None" and nxt: "jsmap_next (Suc i) m = None"
      by (auto simp: jsmap_next.simps [of i] split: option.splits)
    have "drop i m = m ! i # drop (Suc i) m"
      using True by (simp add: Cons_nth_drop_Suc)
    with "1.IH" [OF True none nxt] none show ?thesis by simp
  qed
qed

lemma jsmap_next_Some:
  "jsmap_next i m = Some (e, j) \<Longrightarrow>
     jsmap_entries (drop i m) = e # jsmap_entries (drop j m) \<and>
     jsmap_entries (take j m) = jsmap_entries (take i m) @ [e]"
proof (induction i m rule: jsmap_next.induct)
  case (1 i m)
  from "1.prems" have lt: "i < length m"
    by (auto simp: jsmap_next.simps [of i] split: if_splits)
  have dr: "drop i m = m ! i # drop (Suc i) m"
    using lt by (simp add: Cons_nth_drop_Suc)
  have tk: "take (Suc i) m = take i m @ [m ! i]"
    using lt by (simp add: take_Suc_conv_app_nth)
  show ?case
  proof (cases "m ! i")
    case None
    with lt "1.prems" have nxt: "jsmap_next (Suc i) m = Some (e, j)"
      by (simp add: jsmap_next.simps [of i])
    from "1.IH" [OF lt None nxt] have
      a: "jsmap_entries (drop (Suc i) m) = e # jsmap_entries (drop j m)" and
      b: "jsmap_entries (take j m) = jsmap_entries (take (Suc i) m) @ [e]" by simp_all
    show ?thesis using a b None by (simp add: dr tk jsmap_entries_append)
  next
    case (Some a)
    with lt "1.prems" have "a = e" "j = Suc i"
      by (simp_all add: jsmap_next.simps [of i])
    then show ?thesis using Some by (simp add: dr tk jsmap_entries_append)
  qed
qed

lemma housekeeping_loop_entries:
  "distinct (map fst (jsmap_entries m)) \<Longrightarrow>
   jsmap_entries (housekeeping_loop timeNow i m) =
     jsmap_entries (take i m) @
     filter (\<lambda>e. \<not> stale timeNow (snd e)) (jsmap_entries (drop i m))"
proof (induction timeNow i m rule: housekeeping_loop.induct)
  case (1 timeNow i m)
  have split: "jsmap_entries m = jsmap_entries (take i m) @ jsmap_entries (drop i m)"
    by (metis append_take_drop_id jsmap_entries_append)
  show ?case
  proof (cases "jsmap_next i m")
    case None
    then show ?thesis
      using jsmap_next_None [OF None] split
      by (simp add: housekeeping_loop.simps [of timeNow i m])
  next
    case (Some a)
    obtain key point j where a: "a = ((key, point), j)" by (metis prod.exhaust)
    note nx = jsmap_next_Some [OF Some [unfolded a]]
    have splitj: "jsmap_entries m = jsmap_entries (take j m) @ jsmap_entries (drop j m)"
      by (metis append_take_drop_id jsmap_entries_append)
    let ?m' = "if stale timeNow point then jsmap_delete key m else m"
    have d': "distinct (map fst (jsmap_entries ?m'))"
      using "1.prems" by (simp add: jsmap_entries_delete distinct_map_filter)
    have unf: "housekeeping_loop timeNow i m = housekeeping_loop timeNow j ?m'"
      by (simp add: housekeeping_loop.simps [of timeNow i m] Some a)
    note IH = "1.IH" [OF Some [unfolded a] refl refl d']
    have dist: "distinct (map fst (jsmap_entries (take i m) @ (key, point) # jsmap_entries (drop j m)))"
      using "1.prems" split nx by simp
    show ?thesis
    proof (cases "stale timeNow point")
      case True
      have k1: "filter (\<lambda>e. fst e \<noteq> key) (jsmap_entries (take i m)) = jsmap_entries (take i m)"
        using dist by (auto simp: filter_id_conv)
      have k2: "filter (\<lambda>e. fst e \<noteq> key) (jsmap_entries (drop j m)) = jsmap_entries (drop j m)"
        using dist by (auto simp: filter_id_conv)
      show ?thesis
        using IH True nx k1 k2
        by (simp add: unf take_jsmap_delete drop_jsmap_delete jsmap_entries_delete)
    next
      case False
      then show ?thesis using IH nx by (simp add: unf)
    qed
  qed
qed

lemma housekeeping_loop_filter:
  "jsmap_wf m \<Longrightarrow>
   jsmap_entries (housekeeping_loop timeNow 0 m) =
     filter (\<lambda>e. \<not> stale timeNow (snd e)) (jsmap_entries m)"
  using housekeeping_loop_entries [of m timeNow 0] by (simp add: jsmap_wf_def)

section \<open>The invariants hold in every reachable state\<close>

lemma jsmap_has_delete: "\<not> jsmap_has k (jsmap_delete k m)"
  by (auto simp: jsmap_has_def jsmap_entries_delete)

lemma buffer_ok_delete: "buffer_ok m \<Longrightarrow> buffer_ok (jsmap_delete k m)"
  by (auto simp: buffer_ok_def jsmap_wf_def jsmap_entries_delete distinct_map_filter)

lemma map_fst_replace:
  "map (fst \<circ> (\<lambda>e. if fst e = k then (k, v) else e)) es = map fst es"
  by (induction es) auto

lemma buffer_ok_set: "buffer_ok m \<Longrightarrow> uid p = k \<Longrightarrow> buffer_ok (jsmap_set k p m)"
  by (auto simp: buffer_ok_def jsmap_wf_def jsmap_entries_set map_fst_replace jsmap_has_def)

lemma delete_batch_Nil [simp]: "delete_batch [] m = m"
  by (simp add: delete_batch_def)

lemma delete_batch_Cons [simp]:
  "delete_batch (p # b) m = delete_batch b (jsmap_delete (uid p) m)"
  by (simp add: delete_batch_def)

lemma jsmap_entries_delete_batch:
  "jsmap_entries (delete_batch b m) =
     filter (\<lambda>e. fst e \<notin> uid ` set b) (jsmap_entries m)"
  by (induction b arbitrary: m) (auto simp: jsmap_entries_delete intro: filter_cong)

lemma buffer_ok_delete_batch: "buffer_ok m \<Longrightarrow> buffer_ok (delete_batch b m)"
  by (induction b arbitrary: m) (simp_all add: buffer_ok_delete)

lemma jsmap_size_delete_batch: "jsmap_size (delete_batch b m) \<le> jsmap_size m"
  by (simp add: jsmap_size_def jsmap_entries_delete_batch)

lemma buffer_ok_housekeeping_loop:
  "buffer_ok m \<Longrightarrow> buffer_ok (housekeeping_loop timeNow 0 m)"
  by (auto simp: buffer_ok_def jsmap_wf_def housekeeping_loop_filter distinct_map_filter)

lemma jsmap_size_housekeeping_loop:
  "jsmap_wf m \<Longrightarrow> jsmap_size (housekeeping_loop timeNow 0 m) \<le> jsmap_size m"
  by (simp add: jsmap_size_def housekeeping_loop_filter)

lemma flush_cases:
  assumes "flush now s = (oc, s')"
  shows "(flushing s \<and> oc = Returned \<and> s' = s) \<or>
         (\<not> flushing s \<and> (\<exists>e. oc = Finished e) \<and>
            s' = flush_finally now (s\<lparr>flushing := True\<rparr>)) \<or>
         (\<not> flushing s \<and> (\<exists>t r. oc = Awaiting t r) \<and> s' = s\<lparr>flushing := True\<rparr>)"
proof (cases "flushing s")
  case True
  with assms show ?thesis by (simp add: flush_def)
next
  case False
  show ?thesis
  proof (cases "options s")
    case None
    with False assms show ?thesis by (auto simp: flush_def)
  next
    case (Some opts)
    with False assms obtain n where
      "flush_loop now n (Some 0) (s\<lparr>flushing := True\<rparr>) = (oc, s')"
      by (auto simp: flush_def Let_def)
    with False flush_loop_cases [of now n "Some 0" "s\<lparr>flushing := True\<rparr>"]
    show ?thesis by auto
  qed
qed

lemma flush_resume_cases:
  assumes "flush_resume now r t s = (oc, s')"
  shows "\<exists>m. (m = buffer s \<or> m = delete_batch (batch t) (buffer s)) \<and>
           (((\<exists>e. oc = Finished e) \<and> s' = flush_finally now (s\<lparr>buffer := m\<rparr>)) \<or>
            ((\<exists>t' r'. oc = Awaiting t' r') \<and> s' = s\<lparr>buffer := m\<rparr>))"
proof (cases r)
  case Rejected
  with assms show ?thesis by (auto simp: flush_resume_def)
next
  case (Resolved status)
  show ?thesis
  proof (cases "200 \<le> status \<and> status < 300")
    case False
    with Resolved assms show ?thesis by (auto simp: flush_resume_def)
  next
    case True
    let ?s = "s\<lparr>buffer := delete_batch (batch t) (buffer s)\<rparr>"
    from True Resolved assms have
      "flush_loop now (batches t) (bufferIterator t) ?s = (oc, s')"
      by (simp add: flush_resume_def)
    with flush_loop_cases [of now "batches t" "bufferIterator t" ?s]
    show ?thesis by auto
  qed
qed

lemma db_ok_flush: "db_ok opts s \<Longrightarrow> db_ok opts (snd (flush now s))"
  using flush_cases [of now s "fst (flush now s)" "snd (flush now s)"]
  by (auto simp: db_ok_def)

lemma db_ok_flush_resume: "db_ok opts s \<Longrightarrow> db_ok opts (snd (flush_resume now r t s))"
  using flush_resume_cases [of now r t s "fst (flush_resume now r t s)" "snd (flush_resume now r t s)"]
        jsmap_size_delete_batch [of "batch t" "buffer s"]
  by (auto simp: db_ok_def buffer_ok_delete_batch)

lemma getPoint_uid:
  "getPoint stringify now s point = Some p \<Longrightarrow> \<exists>json. uid p = Some (hash_uid json)"
  by (auto simp: getPoint_def split: option.splits)

lemma send_cases:
  assumes "send stringify now point s = (res, s')" and "options s = Some opts"
  shows "(int (jsmap_size (buffer s)) \<ge> maxBuffer opts \<and>
            res = Dropped (BufferExceeded (jsmap_size (buffer s))) \<and> s' = s) \<or>
         (int (jsmap_size (buffer s)) < maxBuffer opts \<and>
            getPoint stringify now s point = None \<and> res = Dropped TypeError \<and> s' = s) \<or>
         (int (jsmap_size (buffer s)) < maxBuffer opts \<and>
            (\<exists>p. getPoint stringify now s point = Some p \<and>
               (let s1 = s\<lparr>buffer := jsmap_set (uid p) p (buffer s)\<rparr>
                in (res = Buffered \<and> s' = s1 \<and>
                     \<not> (int (jsmap_size (buffer s1)) \<ge> batchSize opts \<or> now > flushExpiry s)) \<or>
                   ((int (jsmap_size (buffer s1)) \<ge> batchSize opts \<or> now > flushExpiry s) \<and>
                     res = Flushed (fst (flush now s1)) \<and> s' = snd (flush now s1)))))"
  using assms
  by (auto simp: send_def Let_def split: option.splits prod.splits if_splits)

lemma db_ok_send: "db_ok opts s \<Longrightarrow> db_ok opts (snd (send stringify now point s))"
proof -
  assume ok: "db_ok opts s"
  then have o: "options s = Some opts" by (simp add: db_ok_def)
  obtain res s' where r: "send stringify now point s = (res, s')" by (metis prod.exhaust)
  have "db_ok opts s'"
  proof -
    from send_cases [OF r o] consider
      "s' = s"
      | p where "int (jsmap_size (buffer s)) < maxBuffer opts"
          "getPoint stringify now s point = Some p"
          "s' = s\<lparr>buffer := jsmap_set (uid p) p (buffer s)\<rparr> \<or>
           s' = snd (flush now (s\<lparr>buffer := jsmap_set (uid p) p (buffer s)\<rparr>))"
      by (auto simp: Let_def)
    then show ?thesis
    proof cases
      case 1
      with ok show ?thesis by simp
    next
      case 2
      let ?s1 = "s\<lparr>buffer := jsmap_set (uid p) p (buffer s)\<rparr>"
      have "db_ok opts ?s1"
        using ok 2(1) by (auto simp: db_ok_def buffer_ok_set jsmap_size_set)
      with 2(3) db_ok_flush [of opts ?s1 now] show ?thesis by auto
    qed
  qed
  with r show ?thesis by simp
qed

lemma db_ok_housekeeping: "db_ok opts s \<Longrightarrow> db_ok opts (snd (housekeeping now s))"
proof -
  assume ok: "db_ok opts s"
  let ?s1 = "s\<lparr>buffer := housekeeping_loop now 0 (buffer s)\<rparr>"
  have "db_ok opts ?s1"
    using ok jsmap_size_housekeeping_loop [of "buffer s" now]
      buffer_ok_housekeeping_loop [of "buffer s" now]
    by (simp add: db_ok_def buffer_ok_def)
  then show ?thesis
    using db_ok_flush [of opts ?s1 now]
    by (auto simp: housekeeping_def Let_def split: prod.splits)
qed

lemma exclusive_flush:
  assumes "exclusive sys" and "flushing s = flushing (db sys)" and "flush now s = (oc, s')"
  shows "exclusive (absorb oc (sys\<lparr>db := s'\<rparr>))"
  using flush_cases [OF assms(3)] assms(1,2) by (auto simp: exclusive_def)

lemma exclusive_settle:
  assumes "exclusive sys" and "i < length (suspended sys)"
    and "flush_resume now r (suspended sys ! i) (db sys) = (oc, s')"
  shows "exclusive
           (absorb oc (sys\<lparr>db := s',
              suspended := take i (suspended sys) @ drop (Suc i) (suspended sys)\<rparr>))"
proof -
  have i0: "i = 0" and len: "length (suspended sys) = 1" and fl: "flushing (db sys)"
    using assms(1,2) by (auto simp: exclusive_def)
  have emp: "take i (suspended sys) @ drop (Suc i) (suspended sys) = []"
    using i0 len by simp
  from flush_resume_cases [OF assms(3)] obtain m where
    "((\<exists>e. oc = Finished e) \<and> s' = flush_finally now ((db sys)\<lparr>buffer := m\<rparr>)) \<or>
     ((\<exists>t' r'. oc = Awaiting t' r') \<and> s' = (db sys)\<lparr>buffer := m\<rparr>)"
    by blast
  then show ?thesis using fl by (auto simp: exclusive_def emp)
qed

lemma send_flush_cases:
  assumes "send stringify now point s = (res, s')"
  shows "(\<exists>oc m. res = Flushed oc \<and> flush now (s\<lparr>buffer := m\<rparr>) = (oc, s')) \<or>
         ((\<forall>oc. res \<noteq> Flushed oc) \<and> flushing s' = flushing s)"
  using assms
  by (auto simp: send_def Let_def split: option.splits prod.splits if_splits)

lemma exclusive_step: "exclusive sys \<Longrightarrow> exclusive (step stringify sys ev)"
proof (cases ev)
  case (Send now point)
  assume ex: "exclusive sys"
  obtain res s' where r: "send stringify now point (db sys) = (res, s')"
    by (metis prod.exhaust)
  from send_flush_cases [OF r] show ?thesis
  proof (elim disjE conjE exE)
    fix oc m
    assume res: "res = Flushed oc" and fl: "flush now ((db sys)\<lparr>buffer := m\<rparr>) = (oc, s')"
    from exclusive_flush [OF ex _ fl] show ?thesis
      using Send r res by (simp add: step_def)
  next
    assume "\<forall>oc. res \<noteq> Flushed oc" and "flushing s' = flushing (db sys)"
    then show ?thesis using ex Send r
      by (cases res) (simp_all add: step_def exclusive_def)
  qed
next
  case (Housekeeping now)
  assume ex: "exclusive sys"
  let ?s1 = "(db sys)\<lparr>buffer := housekeeping_loop now 0 (buffer (db sys))\<rparr>"
  show ?thesis
  proof (cases "now > flushExpiry (db sys)")
    case False
    with ex Housekeeping show ?thesis
      by (simp add: step_def housekeeping_def Let_def exclusive_def)
  next
    case True
    obtain oc s' where fl: "flush now ?s1 = (oc, s')" by (metis prod.exhaust)
    from exclusive_flush [OF ex _ fl] True Housekeeping fl
    show ?thesis by (simp add: step_def housekeeping_def Let_def)
  qed
next
  case (Stop now)
  assume ex: "exclusive sys"
  obtain oc s' where fl: "flush now (db sys) = (oc, s')" by (metis prod.exhaust)
  from exclusive_flush [OF ex refl fl] Stop fl show ?thesis by (simp add: step_def stop_def)
next
  case (Settle i now r)
  assume ex: "exclusive sys"
  show ?thesis
  proof (cases "i < length (suspended sys)")
    case False
    with ex Settle show ?thesis by (simp add: step_def)
  next
    case True
    obtain oc s' where fr: "flush_resume now r (suspended sys ! i) (db sys) = (oc, s')"
      by (metis prod.exhaust)
    from exclusive_settle [OF ex True fr] Settle True fr
    show ?thesis by (simp add: step_def)
  qed
qed

lemma exclusive_run: "exclusive sys \<Longrightarrow> exclusive (run stringify evs sys)"
  by (induction evs arbitrary: sys) (simp_all add: run_def exclusive_step)

lemma start_simps:
  "options (start now opts s) = Some opts"
  "buffer (start now opts s) = buffer s"
  "flushing (start now opts s) = flushing s"
  by (simp_all add: start_def Let_def split: option.splits)

lemma exclusive_boot: "exclusive (boot now opts)"
  by (simp add: boot_def exclusive_def start_simps MongoDb_def)

lemma db_absorb [simp]: "db (absorb oc sys) = db sys"
  by (cases oc) simp_all

lemma db_step:
  "db (step stringify sys ev) =
     (case ev of
        Send now point \<Rightarrow> snd (send stringify now point (db sys))
      | Housekeeping now \<Rightarrow> snd (housekeeping now (db sys))
      | Stop now \<Rightarrow> snd (flush now (db sys))
      | Settle i now r \<Rightarrow>
          if i < length (suspended sys)
          then snd (flush_resume now r (suspended sys ! i) (db sys))
          else db sys)"
  by (auto simp: step_def stop_def split: event.splits prod.splits sent.splits option.splits)

lemma db_ok_step: "db_ok opts (db sys) \<Longrightarrow> db_ok opts (db (step stringify sys ev))"
  by (cases ev)
     (simp_all add: db_step db_ok_send db_ok_housekeeping db_ok_flush db_ok_flush_resume)

lemma db_ok_run: "db_ok opts (db sys) \<Longrightarrow> db_ok opts (db (run stringify evs sys))"
  by (induction evs arbitrary: sys) (simp_all add: run_def db_ok_step)

lemma db_ok_boot: "0 \<le> maxBuffer opts \<Longrightarrow> db_ok opts (db (boot now opts))"
  by (simp add: boot_def db_ok_def start_simps MongoDb_def buffer_ok_def
      jsmap_wf_def jsmap_size_def)

subsection \<open>What a flush does to the buffer\<close>

lemma buffer_flush_loop [simp]: "buffer (snd (flush_loop now n it s)) = buffer s"
  using flush_loop_cases [of now n it s] by auto

lemma buffer_flush [simp]: "buffer (snd (flush now s)) = buffer s"
  using flush_cases [of now s "fst (flush now s)" "snd (flush now s)"] by auto

lemma buffer_housekeeping:
  "buffer (snd (housekeeping now s)) = housekeeping_loop now 0 (buffer s)"
proof -
  let ?s1 = "s\<lparr>buffer := housekeeping_loop now 0 (buffer s)\<rparr>"
  have "buffer (snd (flush now ?s1)) = housekeeping_loop now 0 (buffer s)" by simp
  then show ?thesis
    by (cases "flush now ?s1") (simp add: housekeeping_def Let_def)
qed

subsection \<open>Replacing a buffered point\<close>

lemma jsmap_get_set: "jsmap_get k (jsmap_set k v m) = Some v"
proof (cases "jsmap_has k m")
  case True
  have "k \<in> fst ` set es \<Longrightarrow>
        map_of (map (\<lambda>e. if fst e = k then (k, v) else e) es) k = Some v"
    for es
    by (induction es) auto
  with True show ?thesis by (simp add: jsmap_get_def jsmap_entries_set jsmap_has_def)
next
  case False
  have "k \<notin> fst ` set es \<Longrightarrow> map_of (es @ [(k, v)]) k = Some v"
    for es
    by (induction es) auto
  with False show ?thesis by (simp add: jsmap_get_def jsmap_entries_set jsmap_has_def)
qed

lemma send_replaces:
  assumes g: "getPoint stringify now s point = Some q"
    and h: "jsmap_has (uid q) (buffer s)"
    and r: "send stringify now point s = (res, s2)"
  shows "jsmap_size (buffer s2) = jsmap_size (buffer s) \<and>
         ((\<forall>e. res \<noteq> Dropped e) \<longrightarrow> jsmap_get (uid q) (buffer s2) = Some q)"
proof (cases "options s")
  case None
  with r show ?thesis by (auto simp: send_def)
next
  case (Some opts)
  let ?s1 = "s\<lparr>buffer := jsmap_set (uid q) q (buffer s)\<rparr>"
  have sz: "jsmap_size (buffer ?s1) = jsmap_size (buffer s)"
    using h by (simp add: jsmap_size_set)
  have gt: "jsmap_get (uid q) (buffer ?s1) = Some q" by (simp add: jsmap_get_set)
  have fl: "buffer (snd (flush now ?s1)) = buffer ?s1" by (rule buffer_flush)
  from send_cases [OF r Some] g consider
    e where "res = Dropped e" "s2 = s"
    | "res = Buffered" "s2 = ?s1"
    | "res = Flushed (fst (flush now ?s1))" "s2 = snd (flush now ?s1)"
    by (auto simp: Let_def)
  then show ?thesis
  proof cases
    case 1
    then show ?thesis by simp
  next
    case 2
    with sz gt show ?thesis by simp
  next
    case 3
    with sz gt fl show ?thesis by simp
  qed
qed

lemma send_replaces_accepted:
  assumes g: "getPoint stringify now s point = Some q"
    and h: "jsmap_has (uid q) (buffer s)"
    and o: "options s = Some opts"
    and lt: "int (jsmap_size (buffer s)) < maxBuffer opts"
    and r: "send stringify now point s = (res, s2)"
  shows "(\<forall>e. res \<noteq> Dropped e) \<and> jsmap_get (uid q) (buffer s2) = Some q \<and>
         jsmap_entries (buffer s2) =
           map (\<lambda>e. if fst e = uid q then (uid q, q) else e) (jsmap_entries (buffer s))"
proof -
  let ?s1 = "s\<lparr>buffer := jsmap_set (uid q) q (buffer s)\<rparr>"
  have en: "jsmap_entries (buffer ?s1) =
      map (\<lambda>e. if fst e = uid q then (uid q, q) else e) (jsmap_entries (buffer s))"
    using h by (simp add: jsmap_entries_set)
  have gt: "jsmap_get (uid q) (buffer ?s1) = Some q" by (simp add: jsmap_get_set)
  have fl: "buffer (snd (flush now ?s1)) = buffer ?s1" by (rule buffer_flush)
  from send_cases [OF r o] g lt consider
    "res = Buffered" "s2 = ?s1"
    | "res = Flushed (fst (flush now ?s1))" "s2 = snd (flush now ?s1)"
    by (auto simp: Let_def)
  then show ?thesis
  proof cases
    case 1
    with en gt show ?thesis by simp
  next
    case 2
    with en gt fl show ?thesis by simp
  qed
qed

section \<open>The content hash on 32-bit words\<close>

text \<open>
  The accumulators of \<open>hash_loop\<close> are JavaScript numbers that hold signed 32-bit
  values; read modulo \<open>2^32\<close> they are the 32-bit accumulators of the specification,
  run over the string from its last code unit to its first.
\<close>

lemma word_of_int_ToInt32: "(word_of_int (ToInt32 x) :: 32 word) = word_of_int x"
proof -
  have "ToInt32 x mod 2 ^ 32 = x mod 2 ^ 32"
    unfolding ToInt32_def by (simp add: mod_diff_left_eq)
  then show ?thesis
    by (simp add: word_of_int_eq_iff take_bit_eq_mod)
qed

lemma word_of_int_js_xor:
  "(word_of_int (js_xor (h * 33) (uint c)) :: 32 word) = fingerprint_step c (word_of_int h)"
  by (simp add: js_xor_def fingerprint_step_def of_int_xor_eq word_of_int_ToInt32)

lemma hash_loop_refines:
  "i \<le> length json \<Longrightarrow>
   (case hash_loop json i (h1, h2) of
      (h1', h2') \<Rightarrow>
        (word_of_int h1' :: 32 word) = foldr fingerprint_step (take i json) (word_of_int h1) \<and>
        (word_of_int h2' :: 32 word) = foldr fingerprint_step (take i json) (word_of_int h2))"
proof (induction i arbitrary: h1 h2)
  case 0
  then show ?case by simp
next
  case (Suc i)
  then have lt: "i < length json" by simp
  have tk: "take (Suc i) json = take i json @ [json ! i]"
    using lt by (simp add: take_Suc_conv_app_nth)
  from Suc.IH [of "js_xor (h1 * 33) (uint (json ! i))" "js_xor (h2 * 33) (uint (json ! i))"] lt
  show ?case
    by (simp add: tk word_of_int_js_xor Let_def)
qed

lemma hash_uid_refines: "hash_uid json = spec_fingerprint (rev json)"
proof -
  obtain h1 h2 where h: "hash_loop json (length json) (5381, 52711) = (h1, h2)"
    by (metis prod.exhaust)
  from hash_loop_refines [of "length json" json 5381 52711] h
  have "(word_of_int h1 :: 32 word) = foldr fingerprint_step json 5381"
    and "(word_of_int h2 :: 32 word) = foldr fingerprint_step json 52711"
    by simp_all
  note w = this
  have "uint (word_of_int h1 :: 32 word) = ToUint32 h1"
    and "uint (word_of_int h2 :: 32 word) = ToUint32 h2"
    by (simp_all add: ToUint32_def uint_word_of_int)
  then have "uint (foldr fingerprint_step json 5381) = ToUint32 h1"
    and "uint (foldr fingerprint_step json 52711) = ToUint32 h2"
    by (simp_all only: w)
  then show ?thesis
    by (simp add: hash_uid_def spec_fingerprint_def h foldr_conv_fold)
qed

text \<open>
  Every accumulator stays a signed 32-bit value, so the products \<open>hash * 33\<close> and the
  final \<open>uid\<close> are below \<open>2^53\<close>: in the source's double arithmetic they are exact.
\<close>

lemma ToInt32_signed_take_bit: "ToInt32 x = signed_take_bit 31 x"
  by (simp add: ToInt32_def signed_take_bit_eq_take_bit_shift take_bit_eq_mod)

lemma js_xor_int32: "- (2 ^ 31) \<le> js_xor a b \<and> js_xor a b < 2 ^ 31"
proof -
  have "signed_take_bit 31 a XOR signed_take_bit 31 b = signed_take_bit 31 (a XOR b)"
    by (rule bit_eqI) (simp add: bit_signed_take_bit_iff bit_xor_iff)
  then have "js_xor a b = signed_take_bit 31 (a XOR b)"
    by (simp add: js_xor_def ToInt32_signed_take_bit)
  then show ?thesis
    using signed_take_bit_int_greater_eq_minus_exp [of 31 "a XOR b"]
      signed_take_bit_int_less_exp [of 31 "a XOR b"]
    by simp
qed

lemma hash_loop_int32:
  "- (2 ^ 31) \<le> h1 \<and> h1 < 2 ^ 31 \<Longrightarrow> - (2 ^ 31) \<le> h2 \<and> h2 < 2 ^ 31 \<Longrightarrow>
   (case hash_loop json i (h1, h2) of
      (h1', h2') \<Rightarrow> - (2 ^ 31) \<le> h1' \<and> h1' < 2 ^ 31 \<and> - (2 ^ 31) \<le> h2' \<and> h2' < 2 ^ 31)"
proof (induction i arbitrary: h1 h2)
  case 0
  then show ?case by simp
next
  case (Suc i)
  show ?case
    using Suc.IH [OF js_xor_int32 js_xor_int32] by (simp add: Let_def)
qed

lemma hash_uid_range: "0 \<le> hash_uid json \<and> hash_uid json < 2 ^ 53"
proof -
  obtain h1 h2 where h: "hash_loop json (length json) (5381, 52711) = (h1, h2)"
    by (metis prod.exhaust)
  have "0 \<le> ToUint32 h1" "ToUint32 h1 < 2 ^ 32" "0 \<le> ToUint32 h2" "ToUint32 h2 < 2 ^ 32"
    by (simp_all add: ToUint32_def)
  then show ?thesis by (simp add: hash_uid_def h)
qed

section \<open>A flush whose requests all succeed\<close>

lemma pending_0 [simp]: "pending 0 m = jsmap_entries m"
  by (simp add: pending_def)

lemma pending_next_None: "jsmap_next i m = None \<Longrightarrow> pending i m = []"
  by (simp add: pending_def jsmap_next_None)

lemma pending_next_Some: "jsmap_next i m = Some (e, j) \<Longrightarrow> pending i m = e # pending j m"
  by (simp add: pending_def jsmap_next_Some)

lemma fill_batch_spec:
  "0 \<le> c \<Longrightarrow>
   \<exists>it'. fill_batch c (Some i) m acc = (acc @ map snd (take (nat c) (pending i m)), it') \<and>
     (case it' of
        None \<Rightarrow> length (pending i m) < nat c
      | Some j \<Rightarrow> pending j m = drop (nat c) (pending i m))"
proof (induction c "Some i :: nat option" m acc arbitrary: i rule: fill_batch.induct)
  case (1 c m acc)
  show ?case
  proof (cases "c = 0")
    case True
    have "fill_batch c (Some i) m acc = (acc, Some i)"
      using True by (subst fill_batch.simps) simp
    then show ?thesis using True by simp
  next
    case False
    with "1.prems" have pos: "0 < c" by simp
    then have nc: "nat c = Suc (nat (c - 1))" by simp
    show ?thesis
    proof (cases "jsmap_next i m")
      case None
      have "fill_batch c (Some i) m acc = (acc, None)"
        using False None by (subst fill_batch.simps) simp
      with pos show ?thesis
        by (simp add: pending_next_None [OF None])
    next
      case (Some a)
      obtain e j where a: "a = (e, j)" by (metis prod.exhaust)
      from pos have c1: "0 \<le> c - 1" by simp
      from "1.hyps" [OF False refl Some [unfolded a] refl c1]
      obtain it' where
        f: "fill_batch (c - 1) (Some j) m (acc @ [snd e]) =
              ((acc @ [snd e]) @ map snd (take (nat (c - 1)) (pending j m)), it')"
        and i: "case it' of None \<Rightarrow> length (pending j m) < nat (c - 1)
                | Some j' \<Rightarrow> pending j' m = drop (nat (c - 1)) (pending j m)"
        by blast
      have p: "pending i m = e # pending j m"
        using Some a by (simp add: pending_next_Some)
      have "fill_batch c (Some i) m acc = fill_batch (c - 1) (Some j) m (acc @ [snd e])"
        using False Some a by (subst fill_batch.simps) simp
      then have "fill_batch c (Some i) m acc =
              (acc @ map snd (take (nat c) (pending i m)), it')"
        using f by (simp add: p nc)
      moreover have "case it' of None \<Rightarrow> length (pending i m) < nat c
                | Some j' \<Rightarrow> pending j' m = drop (nat c) (pending i m)"
        using i by (cases it') (simp_all add: p nc)
      ultimately show ?thesis by blast
    qed
  qed
qed

lemma pending_delete_batch:
  "pending i (delete_batch b m) = filter (\<lambda>e. fst e \<notin> uid ` set b) (pending i m)"
proof -
  have "drop i (delete_batch b m) = delete_batch b (drop i m)"
    by (induction b arbitrary: m) (simp_all add: drop_jsmap_delete)
  then show ?thesis by (simp add: pending_def jsmap_entries_delete_batch)
qed

lemma filter_chunk_distinct:
  "distinct (map fst D) \<Longrightarrow> filter (\<lambda>e. fst e \<notin> fst ` set (take k D)) D = drop k D"
proof (induction D arbitrary: k)
  case Nil
  then show ?case by simp
next
  case (Cons x xs)
  show ?case
  proof (cases k)
    case 0
    then show ?thesis by simp
  next
    case (Suc k')
    from Cons.prems have nx: "fst x \<notin> fst ` set xs" and d: "distinct (map fst xs)"
      by auto
    let ?P = "\<lambda>e. fst e \<notin> fst ` set (take (Suc k') (x # xs))"
    let ?Q = "\<lambda>e. fst e \<notin> fst ` set (take k' xs)"
    have "filter ?P (x # xs) = filter ?P xs" by simp
    also have "\<dots> = filter ?Q xs"
    proof (rule filter_cong [OF refl])
      fix e assume "e \<in> set xs"
      with nx have "fst e \<noteq> fst x" by (metis imageI)
      then show "?P e = ?Q e" by simp
    qed
    also have "\<dots> = drop k' xs" by (rule Cons.IH [OF d])
    finally show ?thesis by (simp only: Suc drop_Suc_Cons)
  qed
qed

lemma filter_rest_distinct:
  "distinct (map fst D) \<Longrightarrow> filter (\<lambda>e. fst e \<notin> fst ` set (take k D)) (drop k D) = drop k D"
proof -
  assume d: "distinct (map fst D)"
  let ?P = "\<lambda>e. fst e \<notin> fst ` set (take k D)"
  have "filter ?P (take k D) = []" by (auto simp: filter_empty_conv)
  moreover have "filter ?P (take k D @ drop k D) = drop k D"
    using filter_chunk_distinct [OF d, of k] by simp
  ultimately show ?thesis by (simp only: filter_append append_Nil)
qed

lemma flush_loop_iteration:
  assumes opts: "options s = Some opts" and bs: "0 < batchSize opts"
    and it: "pending p (buffer s) = drop (j * nat (batchSize opts)) es"
    and lt: "j < B"
  shows "\<exists>it'. flush_loop now (Num (int (B - j))) (Some p) s =
           (Awaiting \<lparr>batches = Num (int (B - Suc j)), bufferIterator = it',
                      batch = chunk (nat (batchSize opts)) es j\<rparr>
              (put_request opts (chunk (nat (batchSize opts)) es j)), s) \<and>
         (case it' of
            None \<Rightarrow> length es < Suc j * nat (batchSize opts)
          | Some p' \<Rightarrow> pending p' (buffer s) = drop (Suc j * nat (batchSize opts)) es)"
proof -
  let ?k = "nat (batchSize opts)"
  from bs have c0: "0 \<le> batchSize opts" by simp
  from fill_batch_spec [OF c0, of p "buffer s" "[]"] obtain it' where
    f: "fill_batch (batchSize opts) (Some p) (buffer s) [] =
          (map snd (take ?k (pending p (buffer s))), it')"
    and i: "case it' of None \<Rightarrow> length (pending p (buffer s)) < ?k
            | Some p' \<Rightarrow> pending p' (buffer s) = drop ?k (pending p (buffer s))"
    by auto
  have dec: "int (B - j) - 1 = int (B - Suc j)" using lt by simp
  have tr: "int (B - j) \<noteq> 0" using lt by simp
  have 1: "flush_loop now (Num (int (B - j))) (Some p) s =
           (Awaiting \<lparr>batches = Num (int (B - Suc j)), bufferIterator = it',
                      batch = chunk ?k es j\<rparr>
              (put_request opts (chunk ?k es j)), s)"
    using opts f tr by (simp add: flush_loop_def it chunk_def dec)
  have 2: "case it' of
            None \<Rightarrow> length es < Suc j * ?k
          | Some p' \<Rightarrow> pending p' (buffer s) = drop (Suc j * ?k) es"
  proof (cases it')
    case None
    with i have "length es - j * ?k < ?k" by (simp add: it)
    then have "length es < Suc j * ?k" by simp
    with None show ?thesis by simp
  next
    case (Some p')
    with i have "pending p' (buffer s) = drop ?k (drop (j * ?k) es)" by (simp add: it)
    then have "pending p' (buffer s) = drop (Suc j * ?k) es" by (simp add: add.commute)
    with Some show ?thesis by simp
  qed
  from 1 2 show ?thesis by blast
qed

lemma chunk_keys:
  assumes "\<forall>e \<in> set D. uid (snd e) = fst e"
  shows "uid ` set (map snd (take k D)) = fst ` set (take k D)"
proof -
  have "\<forall>e \<in> set (take k D). uid (snd e) = fst e"
    using assms by (meson in_set_takeD)
  then show ?thesis by (force simp: image_iff)
qed

lemma settle_success:
  assumes inv: "awaiting_batch opts es B req0 j sys" and bs: "0 < batchSize opts"
    and B: "B \<le> length es div nat (batchSize opts) + 1"
    and ok: "200 \<le> st" "st < 300"
  shows "if j = B
         then flush_done opts es B req0 (step stringify sys (Settle 0 now (Resolved st)))
         else awaiting_batch opts es B req0 (Suc j)
                (step stringify sys (Settle 0 now (Resolved st)))"
proof -
  let ?k = "nat (batchSize opts)"
  let ?s = "db sys"
  let ?D = "drop ((j - 1) * ?k) es"
  let ?f = "\<lambda>i. put_request opts (chunk ?k es i)"
  from inv obtain it where
    j1: "1 \<le> j" and jB: "j \<le> B" and o: "options ?s = Some opts" and fl: "flushing ?s"
    and bok: "buffer_ok (buffer ?s)"
    and ent: "jsmap_entries (buffer ?s) = ?D"
    and iss: "issued sys = req0 @ map ?f [0..<j]"
    and sus: "suspended sys =
                [\<lparr>batches = Num (int (B - j)), bufferIterator = it, batch = chunk ?k es (j - 1)\<rparr>]"
    and itp: "j < B \<longrightarrow> (\<exists>p. it = Some p \<and> pending p (buffer ?s) = drop (j * ?k) es)"
    unfolding awaiting_batch_def by blast
  let ?t = "\<lparr>batches = Num (int (B - j)), bufferIterator = it, batch = chunk ?k es (j - 1)\<rparr>"
  let ?m1 = "delete_batch (chunk ?k es (j - 1)) (buffer ?s)"
  let ?s1 = "?s\<lparr>buffer := ?m1\<rparr>"
  have kpos: "0 < ?k" using bs by simp
  have dist: "distinct (map fst ?D)"
    using bok ent by (simp add: buffer_ok_def jsmap_wf_def)
  have uids: "\<forall>e \<in> set ?D. uid (snd e) = fst e"
    using bok ent by (simp add: buffer_ok_def)
  have keys: "uid ` set (chunk ?k es (j - 1)) = fst ` set (take ?k ?D)"
    unfolding chunk_def by (rule chunk_keys [OF uids])
  have jk: "drop ?k ?D = drop (j * ?k) es"
  proof -
    have "?k + (j - 1) * ?k = j * ?k" using j1 by (cases j) simp_all
    then show ?thesis by (simp only: drop_drop)
  qed
  have ent1: "jsmap_entries ?m1 = drop (j * ?k) es"
    using filter_chunk_distinct [OF dist, of ?k]
    by (simp only: jsmap_entries_delete_batch ent keys jk)
  have bok1: "buffer_ok ?m1" by (rule buffer_ok_delete_batch [OF bok])
  have res: "flush_resume now (Resolved st) ?t ?s = flush_loop now (Num (int (B - j))) it ?s1"
    using ok by (simp add: flush_resume_def)
  have unf: "step stringify sys (Settle 0 now (Resolved st)) =
      (case flush_loop now (Num (int (B - j))) it ?s1 of
         (oc, s') \<Rightarrow> absorb oc (sys\<lparr>db := s', suspended := []\<rparr>))"
    using res by (simp add: step_def sus)
  show ?thesis
  proof (cases "j = B")
    case True
    have "flush_loop now (Num (int (B - j))) it ?s1 = (Finished None, flush_finally now ?s1)"
      using True by (simp add: flush_loop_def)
    then have "step stringify sys (Settle 0 now (Resolved st)) =
        sys\<lparr>db := flush_finally now ?s1, suspended := []\<rparr>"
      by (simp add: unf)
    then show ?thesis
      using True o bok1 ent1 iss by (simp add: flush_done_def)
  next
    case False
    with jB have lt: "j < B" by simp
    with itp obtain p where it: "it = Some p"
      and pp: "pending p (buffer ?s) = drop (j * ?k) es" by blast
    have b1: "buffer ?s1 = ?m1" by simp
    have pp1: "pending p (buffer ?s1) = drop (j * ?k) es"
      using filter_rest_distinct [OF dist, of ?k]
      by (simp only: b1 pending_delete_batch pp keys jk)
    have o1: "options ?s1 = Some opts" using o by simp
    from flush_loop_iteration [OF o1 bs pp1 lt, of now] obtain it' where
      fl1: "flush_loop now (Num (int (B - j))) (Some p) ?s1 =
           (Awaiting \<lparr>batches = Num (int (B - Suc j)), bufferIterator = it',
                      batch = chunk ?k es j\<rparr> (?f j), ?s1)"
      and it': "case it' of
            None \<Rightarrow> length es < Suc j * ?k
          | Some p' \<Rightarrow> pending p' (buffer ?s1) = drop (Suc j * ?k) es"
      by blast
    have st: "step stringify sys (Settle 0 now (Resolved st)) =
        sys\<lparr>db := ?s1,
            suspended := [\<lparr>batches = Num (int (B - Suc j)), bufferIterator = it',
                      batch = chunk ?k es j\<rparr>],
            issued := issued sys @ [?f j]\<rparr>"
      unfolding unf it fl1 by simp
    have nxt: "\<exists>p'. it' = Some p' \<and> pending p' (buffer ?s1) = drop (Suc j * ?k) es"
      if "Suc j < B"
    proof -
      from that B have "Suc j \<le> length es div ?k" by simp
      then have "Suc j * ?k \<le> (length es div ?k) * ?k" by (rule mult_le_mono1)
      also have "\<dots> \<le> length es" by (rule div_times_less_eq_dividend)
      finally have "Suc j * ?k \<le> length es" .
      with it' show ?thesis by (cases it') simp_all
    qed
    show ?thesis
      using False lt o fl bok1 ent1 iss nxt
      by (simp add: st awaiting_batch_def)
  qed
qed

lemma stop_starts_flush:
  assumes o: "options (db sys) = Some opts" and bs: "0 < batchSize opts"
    and sus: "suspended sys = []" and nf: "\<not> flushing (db sys)"
    and bok: "buffer_ok (buffer (db sys))"
    and B: "B = jsmap_size (buffer (db sys)) div nat (batchSize opts) +
                (if now > flushExpiry (db sys) then 1 else 0)"
  shows "if B = 0
         then flush_done opts (jsmap_entries (buffer (db sys))) B (issued sys)
                (step stringify sys (Stop now))
         else awaiting_batch opts (jsmap_entries (buffer (db sys))) B (issued sys) 1
                (step stringify sys (Stop now))"
proof -
  let ?k = "nat (batchSize opts)"
  let ?s = "db sys"
  let ?es = "jsmap_entries (buffer ?s)"
  let ?s1 = "?s\<lparr>flushing := True\<rparr>"
  let ?f = "\<lambda>i. put_request opts (chunk ?k ?es i)"
  have k: "batchSize opts = int ?k" using bs by simp
  have fd: "floor_div (jsmap_size (buffer ?s)) (batchSize opts) =
              Num (int (jsmap_size (buffer ?s) div ?k))"
    using bs by (simp add: floor_div_def zdiv_int)
  have cnt: "(if now > flushExpiry ?s
              then js_inc (floor_div (jsmap_size (buffer ?s)) (batchSize opts))
              else floor_div (jsmap_size (buffer ?s)) (batchSize opts)) = Num (int B)"
    by (simp add: fd B)
  have fl: "flush now ?s = flush_loop now (Num (int B)) (Some 0) ?s1"
    using nf o cnt by (simp add: flush_def Let_def)
  have unf: "step stringify sys (Stop now) =
      (case flush_loop now (Num (int B)) (Some 0) ?s1 of
         (oc, s') \<Rightarrow> absorb oc (sys\<lparr>db := s'\<rparr>))"
    by (simp add: step_def stop_def fl)
  show ?thesis
  proof (cases "B = 0")
    case True
    have "flush_loop now (Num (int B)) (Some 0) ?s1 = (Finished None, flush_finally now ?s1)"
      using True by (simp add: flush_loop_def)
    then have "step stringify sys (Stop now) = sys\<lparr>db := flush_finally now ?s1\<rparr>"
      by (simp add: unf)
    then show ?thesis using True o bok sus by (simp add: flush_done_def)
  next
    case False
    then have lt: "0 < B" by simp
    have o1: "options ?s1 = Some opts" using o by simp
    have p0: "pending 0 (buffer ?s1) = drop (0 * ?k) ?es" by simp
    from flush_loop_iteration [OF o1 bs p0 lt, of now] obtain it' where
      fl1: "flush_loop now (Num (int (B - 0))) (Some 0) ?s1 =
           (Awaiting \<lparr>batches = Num (int (B - Suc 0)), bufferIterator = it',
                      batch = chunk ?k ?es 0\<rparr> (?f 0), ?s1)"
      and it': "case it' of
            None \<Rightarrow> length ?es < Suc 0 * ?k
          | Some p' \<Rightarrow> pending p' (buffer ?s1) = drop (Suc 0 * ?k) ?es"
      by blast
    have st: "step stringify sys (Stop now) =
        sys\<lparr>db := ?s1,
            suspended := [\<lparr>batches = Num (int (B - Suc 0)), bufferIterator = it',
                      batch = chunk ?k ?es 0\<rparr>],
            issued := issued sys @ [?f 0]\<rparr>"
      using fl1 by (simp add: unf sus)
    have nxt: "\<exists>p'. it' = Some p' \<and> pending p' (buffer ?s1) = drop (Suc 0 * ?k) ?es"
      if "Suc 0 < B"
    proof -
      from that B have "Suc 0 \<le> length ?es div ?k"
        by (simp add: jsmap_size_def split: if_splits)
      then have "Suc 0 * ?k \<le> (length ?es div ?k) * ?k" by (rule mult_le_mono1)
      also have "\<dots> \<le> length ?es" by (rule div_times_less_eq_dividend)
      finally have "Suc 0 * ?k \<le> length ?es" .
      with it' show ?thesis by (cases it') simp_all
    qed
    show ?thesis
      using False lt o bok nxt by (simp add: st awaiting_batch_def)
  qed
qed

lemma settle_idle: "suspended sys = [] \<Longrightarrow> step stringify sys (Settle i now r) = sys"
  by (simp add: step_def)

lemma run_settle_idle:
  "suspended sys = [] \<Longrightarrow>
   run stringify (map (\<lambda>r. Settle 0 (fst r) (Resolved (snd r))) rs) sys = sys"
  by (induction rs) (simp_all add: run_def settle_idle)

lemma run_Cons: "run stringify (ev # evs) sys = run stringify evs (step stringify sys ev)"
  by (simp add: run_def)

lemma settle_run:
  assumes "awaiting_batch opts es B req0 j sys" and "0 < batchSize opts"
    and "B \<le> length es div nat (batchSize opts) + 1"
    and "\<forall>r \<in> set rs. 200 \<le> snd r \<and> snd r < 300"
    and "B - j < length rs"
  shows "flush_done opts es B req0
           (run stringify (map (\<lambda>r. Settle 0 (fst r) (Resolved (snd r))) rs) sys)"
  using assms
proof (induction rs arbitrary: j sys)
  case Nil
  then show ?case by simp
next
  case (Cons r rs)
  let ?sys1 = "step stringify sys (Settle 0 (fst r) (Resolved (snd r)))"
  from Cons.prems(4) have ok: "200 \<le> snd r" "snd r < 300" by simp_all
  note stp = settle_success [OF Cons.prems(1) Cons.prems(2) Cons.prems(3) ok,
      of stringify "fst r"]
  show ?case
  proof (cases "j = B")
    case True
    with stp have d: "flush_done opts es B req0 ?sys1" by simp
    then have "suspended ?sys1 = []" by (simp add: flush_done_def)
    from run_settle_idle [OF this, of stringify rs] d
    show ?thesis by (simp add: run_Cons)
  next
    case False
    with stp have a: "awaiting_batch opts es B req0 (Suc j) ?sys1" by simp
    from Cons.prems(1) have "j \<le> B" by (simp add: awaiting_batch_def)
    with False Cons.prems(5) have len: "B - Suc j < length rs" by simp
    from Cons.prems(4) have oks: "\<forall>r \<in> set rs. 200 \<le> snd r \<and> snd r < 300" by simp
    from Cons.IH [OF a Cons.prems(2) Cons.prems(3) oks len]
    show ?thesis by (simp add: run_Cons)
  qed
qed

lemma flush_run:
  assumes o: "options (db sys) = Some opts" and bs: "0 < batchSize opts"
    and sus: "suspended sys = []" and nf: "\<not> flushing (db sys)"
    and bok: "buffer_ok (buffer (db sys))"
    and B: "B = jsmap_size (buffer (db sys)) div nat (batchSize opts) +
                (if now > flushExpiry (db sys) then 1 else 0)"
    and oks: "\<forall>r \<in> set rs. 200 \<le> snd r \<and> snd r < 300"
    and len: "B \<le> length rs"
  shows "flush_done opts (jsmap_entries (buffer (db sys))) B (issued sys)
           (run stringify (Stop now # map (\<lambda>r. Settle 0 (fst r) (Resolved (snd r))) rs) sys)"
proof -
  let ?sys1 = "step stringify sys (Stop now)"
  let ?es = "jsmap_entries (buffer (db sys))"
  note stp = stop_starts_flush [OF o bs sus nf bok B, of stringify]
  have Bb: "B \<le> length ?es div nat (batchSize opts) + 1"
    by (simp add: B jsmap_size_def)
  show ?thesis
  proof (cases "B = 0")
    case True
    with stp have d: "flush_done opts ?es B (issued sys) ?sys1" by simp
    then have "suspended ?sys1 = []" by (simp add: flush_done_def)
    from run_settle_idle [OF this, of stringify rs] d
    show ?thesis by (simp add: run_Cons)
  next
    case False
    with stp have a: "awaiting_batch opts ?es B (issued sys) 1 ?sys1" by simp
    from False len have l: "B - 1 < length rs" by simp
    from settle_run [OF a bs Bb oks l]
    show ?thesis by (simp add: run_Cons)
  qed
qed

lemma flush_plans:
  assumes o: "options s = Some opts" and bs: "0 < batchSize opts" and nf: "\<not> flushing s"
    and B: "B = jsmap_size (buffer s) div nat (batchSize opts) +
                (if now > flushExpiry s then 1 else 0)"
  shows "\<exists>it. flush now s =
           (if B = 0 then (Finished None, flush_finally now (s\<lparr>flushing := True\<rparr>))
            else (Awaiting
                    \<lparr>batches = Num (int (B - 1)), bufferIterator = it,
                     batch = chunk (nat (batchSize opts)) (jsmap_entries (buffer s)) 0\<rparr>
                    (put_request opts
                       (chunk (nat (batchSize opts)) (jsmap_entries (buffer s)) 0)),
                  s\<lparr>flushing := True\<rparr>))"
proof -
  let ?k = "nat (batchSize opts)"
  let ?es = "jsmap_entries (buffer s)"
  let ?s1 = "s\<lparr>flushing := True\<rparr>"
  have fd: "floor_div (jsmap_size (buffer s)) (batchSize opts) =
              Num (int (jsmap_size (buffer s) div ?k))"
    using bs by (simp add: floor_div_def zdiv_int)
  have cnt: "(if now > flushExpiry s
              then js_inc (floor_div (jsmap_size (buffer s)) (batchSize opts))
              else floor_div (jsmap_size (buffer s)) (batchSize opts)) = Num (int B)"
    by (simp add: fd B)
  have fl: "flush now s = flush_loop now (Num (int B)) (Some 0) ?s1"
    using nf o cnt by (simp add: flush_def Let_def)
  show ?thesis
  proof (cases "B = 0")
    case True
    then show ?thesis by (simp add: fl flush_loop_def)
  next
    case False
    then have lt: "0 < B" by simp
    have o1: "options ?s1 = Some opts" using o by simp
    have p0: "pending 0 (buffer ?s1) = drop (0 * ?k) ?es" by simp
    from flush_loop_iteration [OF o1 bs p0 lt, of now] obtain it' where
      "flush_loop now (Num (int (B - 0))) (Some 0) ?s1 =
           (Awaiting \<lparr>batches = Num (int (B - Suc 0)), bufferIterator = it',
                      batch = chunk ?k ?es 0\<rparr> (put_request opts (chunk ?k ?es 0)), ?s1)"
      by blast
    with False show ?thesis by (auto simp: fl)
  qed
qed

section \<open>Claims\<close>

text \<open>
  C1. The buffer never holds more than \<open>maxBuffer\<close> points, whatever sequence of
  events the instance goes through after \<open>start\<close> (for a non-negative \<open>maxBuffer\<close>);
  and a \<open>send\<close> that finds \<open>buffer.size >= maxBuffer\<close> is dropped with the
  \<open>buffer exceeded\<close> error and leaves the whole state, the buffer included, as it was.
\<close>

theorem send_respects_maxBuffer:
  "(0 \<le> maxBuffer opts \<longrightarrow>
      int (jsmap_size (buffer (db (run stringify evs (boot t0 opts))))) \<le> maxBuffer opts) \<and>
   (options s = Some opts \<and> maxBuffer opts \<le> int (jsmap_size (buffer s)) \<longrightarrow>
      send stringify now point s = (Dropped (BufferExceeded (jsmap_size (buffer s))), s))"
proof (intro conjI impI)
  assume "0 \<le> maxBuffer opts"
  then have "db_ok opts (db (run stringify evs (boot t0 opts)))"
    by (intro db_ok_run db_ok_boot)
  then show "int (jsmap_size (buffer (db (run stringify evs (boot t0 opts))))) \<le> maxBuffer opts"
    by (simp add: db_ok_def)
next
  assume "options s = Some opts \<and> maxBuffer opts \<le> int (jsmap_size (buffer s))"
  then show "send stringify now point s = (Dropped (BufferExceeded (jsmap_size (buffer s))), s)"
    by (simp add: send_def)
qed

theorem send_respects_maxBuffer_witness:
  "0 \<le> maxBuffer sample_options \<and>
   int (jsmap_size (buffer (db two_buffered))) \<le> maxBuffer sample_options \<and>
   options (db two_buffered) = Some sample_options \<and>
   maxBuffer sample_options \<le> int (jsmap_size (buffer (db two_buffered))) \<and>
   send sample_stringify 3 (sample_point [99]) (db two_buffered) =
     (Dropped (BufferExceeded 2), db two_buffered)"
proof -
  have m: "maxBuffer sample_options = 2" by (simp add: sample_options_def)
  have n: "jsmap_size (buffer (db two_buffered)) = 2" by code_simp
  have o: "options (db two_buffered) = Some sample_options" by code_simp
  show ?thesis
    using send_respects_maxBuffer [of sample_options sample_stringify
        "[Send 1 (sample_point [97]), Send 2 (sample_point [98])]" 0 "db two_buffered" 3
        "sample_point [99]"] m n o
    by (simp add: two_buffered_def)
qed

text \<open>
  C2. A call of \<open>flush\<close> while \<open>flushing\<close> is set returns at once: no request, the
  state unchanged. A call that goes on to suspend on a request has set \<open>flushing\<close>
  before suspending and has not touched the buffer, so a second call made right after it
  returns at once. Over any sequence of events after \<open>start\<close>, at most one flush is
  ever suspended.
\<close>

theorem flush_reentry_noop:
  "(flushing s \<longrightarrow> flush now s = (Returned, s)) \<and>
   (\<forall>t r s'. flush now s = (Awaiting t r, s') \<longrightarrow>
      flushing s' \<and> buffer s' = buffer s \<and> flush now' s' = (Returned, s')) \<and>
   length (suspended (run stringify evs (boot tb opts))) \<le> 1"
proof (intro conjI allI impI)
  assume "flushing s" then show "flush now s = (Returned, s)" by (simp add: flush_def)
next
  fix t r s' assume a: "flush now s = (Awaiting t r, s')"
  from flush_cases [OF a] have s': "s' = s\<lparr>flushing := True\<rparr>" by auto
  show "flushing s'" by (simp add: s')
  show "buffer s' = buffer s" by (simp add: s')
  show "flush now' s' = (Returned, s')" by (simp add: s' flush_def)
next
  have "exclusive (run stringify evs (boot tb opts))"
    by (intro exclusive_run exclusive_boot)
  then show "length (suspended (run stringify evs (boot tb opts))) \<le> 1"
    by (simp add: exclusive_def)
qed

theorem flush_reentry_noop_witness:
  "flushing sample_busy \<and>
   flush 70001 sample_busy = (Returned, sample_busy) \<and>
   flush 70000 sample_idle =
     (Awaiting \<lparr>batches = Num 0, bufferIterator = None, batch = []\<rparr>
        (put_request sample_options []), sample_busy) \<and>
   buffer sample_busy = buffer sample_idle"
proof -
  have a: "flushing sample_busy" by (simp add: sample_busy_def)
  have b: "flush 70000 sample_idle =
     (Awaiting \<lparr>batches = Num 0, bufferIterator = None, batch = []\<rparr>
        (put_request sample_options []), sample_busy)"
    by code_simp
  show ?thesis
  proof (intro conjI)
    show "flushing sample_busy" by (rule a)
    show "flush 70001 sample_busy = (Returned, sample_busy)"
      using a flush_reentry_noop [where s = sample_busy and now = 70001] by blast
    show "flush 70000 sample_idle =
       (Awaiting \<lparr>batches = Num 0, bufferIterator = None, batch = []\<rparr>
          (put_request sample_options []), sample_busy)" by (rule b)
    show "buffer sample_busy = buffer sample_idle"
      using b flush_reentry_noop [where s = sample_idle and now = 70000] by blast
  qed
qed

text \<open>
  C3. When the awaited request is rejected, or resolves with a status outside 200..299,
  the resumed flush ends there: it issues no further request and changes nothing in the
  state except \<open>flushExpiry\<close> and \<open>flushing\<close>, so the buffer keeps the batch in
  flight and stays without the points that earlier batches removed. Every exit runs the
  \<open>finally\<close> block: a resumption, whatever the response, and a call made while no flush
  is in progress, either suspend on a request or end with
  \<open>flushExpiry = now + flushMillis\<close> and \<open>flushing = false\<close>; in particular a resumption
  with a status in 200..299 whose counter has run out ends so, with the batch removed.
\<close>

theorem flush_failure_keeps_batch:
  "(r = Rejected \<or> (\<exists>status. r = Resolved status \<and> \<not> (200 \<le> status \<and> status < 300)) \<longrightarrow>
      (\<exists>e. flush_resume now r t s =
         (Finished (Some e), s\<lparr>flushExpiry := now + flushMillis s, flushing := False\<rparr>))) \<and>
   (\<forall>e s'. flush now s = (Finished e, s') \<or> flush_resume now r t s = (Finished e, s') \<longrightarrow>
      flushExpiry s' = now + flushMillis s \<and> \<not> flushing s') \<and>
   ((\<exists>t' q. flush_resume now r t s =
        (Awaiting t' q, s\<lparr>buffer := delete_batch (batch t) (buffer s)\<rparr>)) \<or>
    (\<exists>e s'. flush_resume now r t s = (Finished e, s') \<and>
        flushExpiry s' = now + flushMillis s \<and> \<not> flushing s')) \<and>
   (\<not> flushing s \<longrightarrow>
      (\<exists>t' q. flush now s = (Awaiting t' q, s\<lparr>flushing := True\<rparr>)) \<or>
      (\<exists>e s'. flush now s = (Finished e, s') \<and>
          flushExpiry s' = now + flushMillis s \<and> \<not> flushing s')) \<and>
   ((\<exists>status. r = Resolved status \<and> 200 \<le> status \<and> status < 300) \<and> \<not> truthy (batches t) \<longrightarrow>
      flush_resume now r t s =
        (Finished None,
         s\<lparr>buffer := delete_batch (batch t) (buffer s),
           flushExpiry := now + flushMillis s, flushing := False\<rparr>))"
proof -
  have fail: "\<exists>e. flush_resume now r t s =
         (Finished (Some e), s\<lparr>flushExpiry := now + flushMillis s, flushing := False\<rparr>)"
    if "r = Rejected \<or> (\<exists>status. r = Resolved status \<and> \<not> (200 \<le> status \<and> status < 300))"
    using that by (auto simp: flush_resume_def flush_finally_def)
  have fin: "flushExpiry s' = now + flushMillis s \<and> \<not> flushing s'"
    if "flush now s = (Finished e, s') \<or> flush_resume now r t s = (Finished e, s')" for e s'
    using that
  proof
    assume "flush now s = (Finished e, s')"
    from flush_cases [OF this] show ?thesis by auto
  next
    assume "flush_resume now r t s = (Finished e, s')"
    from flush_resume_cases [OF this] show ?thesis by auto
  qed
  have res: "(\<exists>t' q. flush_resume now r t s =
        (Awaiting t' q, s\<lparr>buffer := delete_batch (batch t) (buffer s)\<rparr>)) \<or>
    (\<exists>e s'. flush_resume now r t s = (Finished e, s') \<and>
        flushExpiry s' = now + flushMillis s \<and> \<not> flushing s')"
  proof (cases "r = Rejected \<or> (\<exists>status. r = Resolved status \<and> \<not> (200 \<le> status \<and> status < 300))")
    case True
    from fail [OF True] show ?thesis by auto
  next
    case False
    then obtain status where r: "r = Resolved status" and ok: "200 \<le> status" "status < 300"
      by (cases r) auto
    let ?s1 = "s\<lparr>buffer := delete_batch (batch t) (buffer s)\<rparr>"
    have "flush_resume now r t s = flush_loop now (batches t) (bufferIterator t) ?s1"
      using r ok by (simp add: flush_resume_def)
    with flush_loop_cases [of now "batches t" "bufferIterator t" ?s1]
    show ?thesis by auto
  qed
  have call: "(\<exists>t' q. flush now s = (Awaiting t' q, s\<lparr>flushing := True\<rparr>)) \<or>
      (\<exists>e s'. flush now s = (Finished e, s') \<and>
          flushExpiry s' = now + flushMillis s \<and> \<not> flushing s')"
    if nf: "\<not> flushing s"
  proof -
    obtain oc s' where f: "flush now s = (oc, s')" by (metis prod.exhaust)
    from flush_cases [OF f] nf show ?thesis by (auto simp: f)
  qed
  have fini: "flush_resume now r t s =
        (Finished None,
         s\<lparr>buffer := delete_batch (batch t) (buffer s),
           flushExpiry := now + flushMillis s, flushing := False\<rparr>)"
    if "(\<exists>status. r = Resolved status \<and> 200 \<le> status \<and> status < 300) \<and> \<not> truthy (batches t)"
    using that by (auto simp: flush_resume_def flush_loop_def flush_finally_def)
  from fail fin res call fini show ?thesis by blast
qed

theorem flush_failure_keeps_batch_witness:
  "flush_resume 70500 (Resolved 500) (suspended sample_inflight ! 0) (db sample_inflight) =
     (Finished (Some ReferenceError),
      (db sample_inflight)\<lparr>flushExpiry := 130500, flushing := False\<rparr>) \<and>
   jsmap_size (buffer (db sample_inflight)) = 1 \<and>
   length (batch (suspended sample_inflight ! 0)) = 1 \<and>
   \<not> truthy (batches (suspended sample_inflight ! 0)) \<and>
   flush_resume 70500 (Resolved 200) (suspended sample_inflight ! 0) (db sample_inflight) =
     (Finished None,
      (db sample_inflight)
        \<lparr>buffer := delete_batch (batch (suspended sample_inflight ! 0))
                     (buffer (db sample_inflight)),
         flushExpiry := 130500, flushing := False\<rparr>) \<and>
   \<not> flushing sample_idle \<and>
   fst (flush 1 sample_idle) = Finished None \<and>
   flushExpiry (snd (flush 1 sample_idle)) = 60001 \<and>
   \<not> flushing (snd (flush 1 sample_idle))"
proof -
  let ?t = "suspended sample_inflight ! 0"
  let ?s = "db sample_inflight"
  have m: "flushMillis ?s = 60000" by code_simp
  have n: "jsmap_size (buffer ?s) = 1" by code_simp
  have b: "length (batch ?t) = 1" by code_simp
  have c: "\<not> truthy (batches ?t)" by code_simp
  have i: "\<not> flushing sample_idle" by code_simp
  have im: "flushMillis sample_idle = 60000" by code_simp
  have 5: "fst (flush 1 sample_idle) = Finished None" by code_simp
  then have f: "flush 1 sample_idle = (Finished None, snd (flush 1 sample_idle))"
    by (metis prod.collapse)
  have a: "flush_resume 70500 (Resolved 500) ?t ?s =
     (Finished (Some ReferenceError), flush_finally 70500 ?s)"
    by (simp add: flush_resume_def)
  note bad = flush_failure_keeps_batch [where r = "Resolved 500" and now = 70500
      and t = ?t and s = ?s]
  note good = flush_failure_keeps_batch [where r = "Resolved 200" and now = 70500
      and t = ?t and s = ?s]
  note idle = flush_failure_keeps_batch [where r = Rejected and now = 1
      and t = ?t and s = sample_idle]
  from bad have "\<exists>e. flush_resume 70500 (Resolved 500) ?t ?s =
     (Finished (Some e), ?s\<lparr>flushExpiry := 70500 + flushMillis ?s, flushing := False\<rparr>)"
    by simp
  with a m have 1: "flush_resume 70500 (Resolved 500) ?t ?s =
     (Finished (Some ReferenceError), ?s\<lparr>flushExpiry := 130500, flushing := False\<rparr>)"
    by auto
  from good c have "flush_resume 70500 (Resolved 200) ?t ?s =
     (Finished None,
      ?s\<lparr>buffer := delete_batch (batch ?t) (buffer ?s),
         flushExpiry := 70500 + flushMillis ?s, flushing := False\<rparr>)"
    by simp
  with m have 2: "flush_resume 70500 (Resolved 200) ?t ?s =
     (Finished None,
      ?s\<lparr>buffer := delete_batch (batch ?t) (buffer ?s),
         flushExpiry := 130500, flushing := False\<rparr>)"
    by simp
  from idle f have "flushExpiry (snd (flush 1 sample_idle)) = 1 + flushMillis sample_idle \<and>
      \<not> flushing (snd (flush 1 sample_idle))"
    by blast
  with im have 3: "flushExpiry (snd (flush 1 sample_idle)) = 60001"
    and 4: "\<not> flushing (snd (flush 1 sample_idle))" by simp_all
  from 1 n b c 2 i 5 3 4 show ?thesis by blast
qed

text \<open>
  C4. When the awaited request resolves with a status in 200..299, the entries left in
  the buffer are exactly the earlier ones whose key is not the \<open>uid\<close> of a point of the
  batch, in the same order: no \<open>uid\<close> of the batch is a key of the buffer any more, and
  every other key holds the point it held.
\<close>

theorem flush_success_removes_batch:
  "200 \<le> status \<and> status < 300 \<longrightarrow>
     jsmap_entries (buffer (snd (flush_resume now (Resolved status) t s))) =
       filter (\<lambda>e. fst e \<notin> uid ` set (batch t)) (jsmap_entries (buffer s)) \<and>
     (\<forall>point \<in> set (batch t).
        \<not> jsmap_has (uid point) (buffer (snd (flush_resume now (Resolved status) t s)))) \<and>
     (\<forall>k. k \<notin> uid ` set (batch t) \<longrightarrow>
        jsmap_get k (buffer (snd (flush_resume now (Resolved status) t s))) =
        jsmap_get k (buffer s))"
proof
  assume ok: "200 \<le> status \<and> status < 300"
  let ?s' = "snd (flush_resume now (Resolved status) t s)"
  have b: "buffer ?s' = delete_batch (batch t) (buffer s)"
    using ok by (simp add: flush_resume_def)
  have e: "jsmap_entries (buffer ?s') =
      filter (\<lambda>e. fst e \<notin> uid ` set (batch t)) (jsmap_entries (buffer s))"
    by (simp add: b jsmap_entries_delete_batch)
  have h: "\<forall>point \<in> set (batch t). \<not> jsmap_has (uid point) (buffer ?s')"
    by (auto simp: jsmap_has_def e)
  have g: "\<forall>k. k \<notin> uid ` set (batch t) \<longrightarrow> jsmap_get k (buffer ?s') = jsmap_get k (buffer s)"
  proof (intro allI impI)
    fix k assume k: "k \<notin> uid ` set (batch t)"
    have "map_of (filter (\<lambda>e. fst e \<notin> uid ` set (batch t)) es) k = map_of es k" for es :: "(int option \<times> 'a point) list"
      using k by (induction es) auto
    then show "jsmap_get k (buffer ?s') = jsmap_get k (buffer s)"
      by (simp add: jsmap_get_def e)
  qed
  from e h g show "jsmap_entries (buffer ?s') =
       filter (\<lambda>e. fst e \<notin> uid ` set (batch t)) (jsmap_entries (buffer s)) \<and>
     (\<forall>point \<in> set (batch t). \<not> jsmap_has (uid point) (buffer ?s')) \<and>
     (\<forall>k. k \<notin> uid ` set (batch t) \<longrightarrow> jsmap_get k (buffer ?s') = jsmap_get k (buffer s))"
    by blast
qed

theorem flush_success_removes_batch_witness:
  "length (batch (suspended sample_five ! 0)) = 5 \<and>
   jsmap_size (buffer (db sample_five)) = 5 \<and>
   list_all (\<lambda>point. \<not> jsmap_has (uid point)
       (buffer (snd (flush_resume 6 (Resolved 200) (suspended sample_five ! 0) (db sample_five)))))
     (batch (suspended sample_five ! 0))"
proof -
  have a: "length (batch (suspended sample_five ! 0)) = 5" by code_simp
  have b: "jsmap_size (buffer (db sample_five)) = 5" by code_simp
  have "(200::int) \<le> 200 \<and> (200::int) < 300" by simp
  with flush_success_removes_batch [where status = 200 and now = 6
      and t = "suspended sample_five ! 0" and s = "db sample_five"]
  have "\<forall>point \<in> set (batch (suspended sample_five ! 0)).
        \<not> jsmap_has (uid point)
          (buffer (snd (flush_resume 6 (Resolved 200) (suspended sample_five ! 0) (db sample_five))))"
    by blast
  with a b show ?thesis by (simp add: list_all_iff)
qed

text \<open>
  C10. A flush called after the flush deadline on an empty buffer, with no flush in
  progress and a non-zero batch size, issues one request whose body is the empty list
  and suspends; whatever the response and whatever the state has become meanwhile, its
  resumption ends the flush without another request.
\<close>

theorem flush_sends_empty_batch:
  "options s = Some opts \<and> batchSize opts \<noteq> 0 \<and> \<not> flushing s \<and>
   jsmap_size (buffer s) = 0 \<and> now > flushExpiry s \<longrightarrow>
     flush now s =
       (Awaiting \<lparr>batches = Num 0, bufferIterator = None, batch = []\<rparr> (put_request opts []),
        s\<lparr>flushing := True\<rparr>) \<and>
     req_body (put_request opts [] :: 'a request) = [] \<and>
     (\<forall>now' r (s' :: 'a mongodb). \<exists>e.
        fst (flush_resume now' r \<lparr>batches = Num 0, bufferIterator = None, batch = []\<rparr> s') =
          Finished e)"
proof
  assume a: "options s = Some opts \<and> batchSize opts \<noteq> 0 \<and> \<not> flushing s \<and>
   jsmap_size (buffer s) = 0 \<and> now > flushExpiry s"
  then have emp: "jsmap_entries (buffer s) = []" by (simp add: jsmap_size_def)
  have nx: "jsmap_next 0 (buffer s) = None"
  proof (cases "jsmap_next 0 (buffer s)")
    case (Some x)
    obtain e j where "x = (e, j)" by (metis prod.exhaust)
    with Some jsmap_next_Some [of 0 "buffer s" e j] emp show ?thesis by simp
  qed simp
  have fb: "fill_batch (batchSize opts) (Some 0) (buffer s) [] = ([], None)"
    using a nx by (simp add: fill_batch.simps [of _ "Some 0"])
  have 1: "flush now s =
       (Awaiting \<lparr>batches = Num 0, bufferIterator = None, batch = []\<rparr> (put_request opts []),
        s\<lparr>flushing := True\<rparr>)"
    using a fb by (simp add: flush_def flush_loop_def floor_div_def Let_def)
  have 2: "req_body (put_request opts [] :: 'a request) = []" by (simp add: put_request_def)
  have 3: "\<exists>e. fst (flush_resume now' r \<lparr>batches = Num 0, bufferIterator = None, batch = []\<rparr> s') =
          Finished e" for now' r and s' :: "'a mongodb"
    by (cases r) (simp_all add: flush_resume_def flush_loop_def)
  from 1 2 3 show "flush now s =
       (Awaiting \<lparr>batches = Num 0, bufferIterator = None, batch = []\<rparr> (put_request opts []),
        s\<lparr>flushing := True\<rparr>) \<and>
     req_body (put_request opts [] :: 'a request) = [] \<and>
     (\<forall>now' r (s' :: 'a mongodb). \<exists>e.
        fst (flush_resume now' r \<lparr>batches = Num 0, bufferIterator = None, batch = []\<rparr> s') =
          Finished e)" by blast
qed

theorem flush_sends_empty_batch_witness:
  "options sample_idle = Some sample_options \<and> batchSize sample_options \<noteq> 0 \<and>
   \<not> flushing sample_idle \<and> jsmap_size (buffer sample_idle) = 0 \<and>
   70000 > flushExpiry sample_idle \<and>
   flush 70000 sample_idle =
     (Awaiting \<lparr>batches = Num 0, bufferIterator = None, batch = []\<rparr>
        (put_request sample_options []), sample_idle\<lparr>flushing := True\<rparr>)"
proof -
  have h: "options sample_idle = Some sample_options \<and> batchSize sample_options \<noteq> 0 \<and>
   \<not> flushing sample_idle \<and> jsmap_size (buffer sample_idle) = 0 \<and>
   70000 > flushExpiry sample_idle"
    by code_simp
  with flush_sends_empty_batch [where s = sample_idle and opts = sample_options and now = 70000]
  show ?thesis by blast
qed

text \<open>
  C7, as stated, fails at the boundary: after a tick at time 180002 the point whose
  expiry is 180002 is still buffered.
\<close>

theorem housekeeping_keeps_point_at_expiry:
  "map (\<lambda>e. expiry (snd e))
     (jsmap_entries (buffer (snd (housekeeping 180002 (db two_buffered))))) = [Some 180002]"
  by code_simp

text \<open>
  C7, amended. A housekeeping tick removes exactly the buffered points whose expiry is
  strictly earlier than the clock reading of the tick: the entries left are those with
  \<open>expiry >= now\<close> (or without expiry), in their order.
\<close>

theorem housekeeping_evicts_expired:
  "jsmap_wf (buffer s) \<longrightarrow>
     jsmap_entries (buffer (snd (housekeeping now s))) =
       filter (\<lambda>e. case expiry (snd e) of None \<Rightarrow> True | Some x \<Rightarrow> now \<le> x)
         (jsmap_entries (buffer s))"
proof
  assume wf: "jsmap_wf (buffer s)"
  have "(\<lambda>e :: int option \<times> 'a point. \<not> stale now (snd e)) =
        (\<lambda>e. case expiry (snd e) of None \<Rightarrow> True | Some x \<Rightarrow> now \<le> x)"
    by (auto simp: stale_def fun_eq_iff split: option.splits)
  with housekeeping_loop_filter [OF wf, of now]
  show "jsmap_entries (buffer (snd (housekeeping now s))) =
       filter (\<lambda>e. case expiry (snd e) of None \<Rightarrow> True | Some x \<Rightarrow> now \<le> x)
         (jsmap_entries (buffer s))"
    by (simp add: buffer_housekeeping)
qed

theorem housekeeping_evicts_expired_witness:
  "jsmap_wf (buffer (db two_buffered)) \<and>
   map (\<lambda>e. expiry (snd e)) (jsmap_entries (buffer (db two_buffered))) =
     [Some 180001, Some 180002] \<and>
   jsmap_entries (buffer (snd (housekeeping 180002 (db two_buffered)))) =
     filter (\<lambda>e. case expiry (snd e) of None \<Rightarrow> True | Some x \<Rightarrow> 180002 \<le> x)
       (jsmap_entries (buffer (db two_buffered)))"
proof -
  have wf: "jsmap_wf (buffer (db two_buffered))" by code_simp
  have e: "map (\<lambda>e. expiry (snd e)) (jsmap_entries (buffer (db two_buffered))) =
     [Some 180001, Some 180002]" by code_simp
  from wf e housekeeping_evicts_expired [where s = "db two_buffered" and now = 180002]
  show ?thesis by blast
qed

text \<open>
  C6, as stated, fails on the order of the characters. Taking the character codes in the
  order of the serialised string, the two accumulators give 24063655684 for the string
  of the code units 97, 98; the source, whose loop \<open>while (i--)\<close> starts at the last
  code unit, gives 24064311076.
\<close>

theorem fingerprint_not_in_string_order:
  "hash_uid [97, 98] = 24064311076 \<and> spec_fingerprint [97, 98] = 24063655684"
  by code_simp

text \<open>
  C6, amended. The \<open>uid\<close> computed by \<open>getPoint\<close> is the fingerprint of the
  specification taken over the serialised stamped point from its last character to its
  first. Two points with the same serialisation get the same \<open>uid\<close>. A \<open>send\<close> of a
  point whose \<open>uid\<close> is already a key of the buffer leaves the size of the buffer
  unchanged, and when the buffer is below \<open>maxBuffer\<close> the point is not dropped: the
  entry of that key then holds the new point, in its old place, and every other entry is
  as it was.
\<close>

theorem fingerprint_is_reversed_rolling_hash:
  "hash_uid json = spec_fingerprint (rev json) \<and>
   (\<forall>q. getPoint stringify now s point = Some q \<longrightarrow>
      (\<exists>js. stringify (stamped now s point) = Some js \<and>
            uid q = Some (spec_fingerprint (rev js)))) \<and>
   (\<forall>q1 q2. getPoint stringify now s point = Some q1 \<and>
        getPoint stringify now' s' point' = Some q2 \<and>
        stringify (stamped now s point) = stringify (stamped now' s' point') \<longrightarrow>
      uid q1 = uid q2) \<and>
   (\<forall>q res s2. getPoint stringify now s point = Some q \<and> jsmap_has (uid q) (buffer s) \<and>
        send stringify now point s = (res, s2) \<longrightarrow>
      jsmap_size (buffer s2) = jsmap_size (buffer s) \<and>
      ((\<forall>e. res \<noteq> Dropped e) \<longrightarrow> jsmap_get (uid q) (buffer s2) = Some q)) \<and>
   (\<forall>q opts res s2. getPoint stringify now s point = Some q \<and>
        jsmap_has (uid q) (buffer s) \<and> options s = Some opts \<and>
        int (jsmap_size (buffer s)) < maxBuffer opts \<and>
        send stringify now point s = (res, s2) \<longrightarrow>
      (\<forall>e. res \<noteq> Dropped e) \<and> jsmap_get (uid q) (buffer s2) = Some q \<and>
      jsmap_entries (buffer s2) =
        map (\<lambda>e. if fst e = uid q then (uid q, q) else e) (jsmap_entries (buffer s)))"
proof -
  have a: "hash_uid json = spec_fingerprint (rev json)" by (rule hash_uid_refines)
  have b: "\<exists>js. stringify (stamped now s point) = Some js \<and>
              uid q = Some (spec_fingerprint (rev js))"
    if "getPoint stringify now s point = Some q" for q
    using that by (auto simp: getPoint_def hash_uid_refines split: option.splits)
  have c: "uid q1 = uid q2"
    if "getPoint stringify now s point = Some q1 \<and>
        getPoint stringify now' s' point' = Some q2 \<and>
        stringify (stamped now s point) = stringify (stamped now' s' point')" for q1 q2
    using that by (auto simp: getPoint_def split: option.splits)
  have d: "jsmap_size (buffer s2) = jsmap_size (buffer s) \<and>
      ((\<forall>e. res \<noteq> Dropped e) \<longrightarrow> jsmap_get (uid q) (buffer s2) = Some q)"
    if "getPoint stringify now s point = Some q \<and> jsmap_has (uid q) (buffer s) \<and>
        send stringify now point s = (res, s2)" for q res s2
    using that send_replaces by blast
  have e: "(\<forall>e. res \<noteq> Dropped e) \<and> jsmap_get (uid q) (buffer s2) = Some q \<and>
      jsmap_entries (buffer s2) =
        map (\<lambda>e. if fst e = uid q then (uid q, q) else e) (jsmap_entries (buffer s))"
    if "getPoint stringify now s point = Some q \<and>
        jsmap_has (uid q) (buffer s) \<and> options s = Some opts \<and>
        int (jsmap_size (buffer s)) < maxBuffer opts \<and>
        send stringify now point s = (res, s2)" for q opts res s2
    using that send_replaces_accepted [of stringify now s point q opts res s2] by blast
  from a b c d e show ?thesis by blast
qed

theorem fingerprint_is_reversed_rolling_hash_witness:
  "jsmap_entries (buffer (db sample_one)) =
     [(Some 18137694919,
       \<lparr>payload = [97], time = Some (Stamped 1), expiry = Some 180001,
        uid = Some 18137694919\<rparr>)] \<and>
   sample_stringify (stamped 1 (db sample_one) sample_timed) =
     sample_stringify (stamped 1 (db (boot 0 sample_options)) (sample_point [97])) \<and>
   getPoint sample_stringify 1 (db sample_one) sample_timed =
     Some \<lparr>payload = [97], time = Some (Supplied ''2022-10-20T17:36:16.565Z''),
            expiry = Some 180001, uid = Some 18137694919\<rparr> \<and>
   send sample_stringify 1 sample_timed (db sample_one) =
     (Buffered,
      (db sample_one)
        \<lparr>buffer :=
           [Some (Some 18137694919,
              \<lparr>payload = [97], time = Some (Supplied ''2022-10-20T17:36:16.565Z''),
               expiry = Some 180001, uid = Some 18137694919\<rparr>)]\<rparr>) \<and>
   jsmap_size (buffer (snd (send sample_stringify 1 sample_timed (db sample_one)))) = 1 \<and>
   jsmap_get (Some 18137694919)
     (buffer (snd (send sample_stringify 1 sample_timed (db sample_one)))) =
     Some \<lparr>payload = [97], time = Some (Supplied ''2022-10-20T17:36:16.565Z''),
            expiry = Some 180001, uid = Some 18137694919\<rparr> \<and>
   spec_fingerprint (rev [97, 48929]) = 18137694919"
proof -
  let ?q1 = "\<lparr>payload = [97], time = Some (Stamped 1), expiry = Some 180001,
            uid = Some 18137694919\<rparr> :: 16 word list point"
  let ?q2 = "\<lparr>payload = [97], time = Some (Supplied ''2022-10-20T17:36:16.565Z''),
            expiry = Some 180001, uid = Some 18137694919\<rparr> :: 16 word list point"
  let ?s = "db sample_one"
  let ?s2 = "?s\<lparr>buffer := [Some (Some 18137694919, ?q2)]\<rparr>"
  have en: "jsmap_entries (buffer ?s) = [(Some 18137694919, ?q1)]" by code_simp
  have ser: "sample_stringify (stamped 1 ?s sample_timed) =
     sample_stringify (stamped 1 (db (boot 0 sample_options)) (sample_point [97]))"
    by code_simp
  have g1: "getPoint sample_stringify 1 (db (boot 0 sample_options)) (sample_point [97]) = Some ?q1"
    by code_simp
  have g: "getPoint sample_stringify 1 ?s sample_timed = Some ?q2" by code_simp
  have h: "jsmap_has (uid ?q2) (buffer ?s)" by code_simp
  have o: "options ?s = Some sample_options" by code_simp
  have lt: "int (jsmap_size (buffer ?s)) < maxBuffer sample_options" by code_simp
  have n: "jsmap_size (buffer ?s) = 1" by code_simp
  have sd: "send sample_stringify 1 sample_timed ?s = (Buffered, ?s2)" by code_simp
  have f: "hash_uid [97, 48929] = 18137694919" by code_simp
  note inst = fingerprint_is_reversed_rolling_hash [where json = "[97, 48929]"
      and stringify = sample_stringify and now = 1 and s = ?s
      and point = sample_timed and now' = 1 and s' = "db (boot 0 sample_options)"
      and point' = "sample_point [97]"]
  from inst f have 1: "spec_fingerprint (rev [97, 48929]) = 18137694919" by simp
  from inst g g1 ser have 2: "uid ?q2 = uid ?q1" by blast
  from inst g h sd have 3: "jsmap_size (buffer ?s2) = jsmap_size (buffer ?s)" by blast
  from inst g h o lt sd have 4: "jsmap_get (uid ?q2) (buffer ?s2) = Some ?q2" by blast
  from 3 n have 5: "jsmap_size (buffer (snd (send sample_stringify 1 sample_timed ?s))) = 1"
    by (simp add: sd)
  from 4 have 6: "jsmap_get (Some 18137694919)
      (buffer (snd (send sample_stringify 1 sample_timed ?s))) = Some ?q2"
    by (simp add: sd)
  from en ser g sd 5 6 1 show ?thesis by blast
qed

text \<open>
  C8 fails on the code. With \<open>flushSecs = 0\<close>, \<open>start\<close> leaves \<open>flushMillis = 0\<close> and
  \<open>flushExpiry\<close> at the time of construction, so every later comparison
  \<open>timeNow > flushExpiry\<close> succeeds: one millisecond after the start, a \<open>send\<close> of a
  single point (batch size 100) flushes it, and a housekeeping tick on the empty buffer
  issues a request.
\<close>

theorem flushSecs_zero_flushes_on_deadline:
  "flushSecs sample_no_periodic = Some 0 \<and> batchSize sample_no_periodic = 100 \<and>
   flushMillis (db (boot 0 sample_no_periodic :: 16 word list system)) = 0 \<and>
   flushExpiry (db (boot 0 sample_no_periodic :: 16 word list system)) = 0 \<and>
   fst (send sample_stringify 1 (sample_point [97]) (db (boot 0 sample_no_periodic))) =
     Flushed
       (Awaiting
          \<lparr>batches = Num 0, bufferIterator = None,
           batch = [\<lparr>payload = [97], time = Some (Stamped 1), expiry = Some 180001,
                     uid = Some 18137694919\<rparr>]\<rparr>
          (put_request sample_no_periodic
             [\<lparr>payload = [97], time = Some (Stamped 1), expiry = Some 180001,
               uid = Some 18137694919\<rparr>])) \<and>
   fst (housekeeping 1 (db (boot 0 sample_no_periodic :: 16 word list system))) =
     Some (Awaiting \<lparr>batches = Num 0, bufferIterator = None, batch = []\<rparr>
             (put_request sample_no_periodic []))"
  by code_simp

text \<open>
  C9 fails on the code in its first part. The request is built with \<open>superagent.put\<close>
  whatever \<open>apiMethod\<close> says: with \<open>apiMethod = POST\<close> the request issued is a PUT.
  The rest is as the claim says: the configured URL, the three headers, 2 retries, and
  the bounds of 10000 and 25000 milliseconds.
\<close>

theorem request_method_is_always_put:
  "apiMethod sample_options = ''POST'' \<and>
   map req_method (issued sample_inflight) = [PUT] \<and>
   put_request opts b =
     \<lparr>req_method = PUT, req_url = apiUrl opts,
      req_headers =
        [(''Content-Type'', ''application/json''), (''accept'', ''json''),
         (''api-key'', apiKey opts)],
      req_retry = 2, req_timeout_response = 10000, req_timeout_deadline = 25000,
      req_body = b\<rparr>"
proof -
  have "apiMethod sample_options = ''POST''" by (simp add: sample_options_def)
  moreover have "map req_method (issued sample_inflight) = [PUT]" by code_simp
  ultimately show ?thesis
    by (simp add: put_request_def responseMillis_def deadlineMillis_def)
qed

text \<open>
  C5. A flush that starts with \<open>n\<close> buffered points and a positive batch size sets its
  counter to \<open>B = n div batchSize\<close>, one more when \<open>now > flushExpiry\<close>: with
  \<open>B = 0\<close> it ends at once, otherwise it issues the first \<open>batchSize\<close> points and
  keeps \<open>B - 1\<close> on the counter. When every request is answered with a status in
  200..299 and nothing else happens in between, it issues exactly \<open>B\<close> requests, the
  \<open>i\<close>-th carrying the \<open>i\<close>-th run of \<open>batchSize\<close> points in insertion order, and
  leaves the points after the first \<open>B * batchSize\<close> in the buffer. With a batch size
  of 10, 25 points and \<open>now <= flushExpiry\<close> it issues two requests of 10 points and
  leaves 5 points.
\<close>

theorem flush_batches:
  "options (db sys) = Some opts \<and> 0 < batchSize opts \<and> suspended sys = [] \<and>
   \<not> flushing (db sys) \<and> buffer_ok (buffer (db sys)) \<and>
   (\<forall>r \<in> set rs. 200 \<le> snd r \<and> snd r < 300) \<and>
   B = jsmap_size (buffer (db sys)) div nat (batchSize opts) +
         (if now > flushExpiry (db sys) then 1 else 0) \<and>
   B \<le> length rs \<and>
   sys' = run stringify (Stop now # map (\<lambda>r. Settle 0 (fst r) (Resolved (snd r))) rs) sys
   \<longrightarrow>
   (\<exists>it. flush now (db sys) =
      (if B = 0 then (Finished None, flush_finally now ((db sys)\<lparr>flushing := True\<rparr>))
       else (Awaiting
               \<lparr>batches = Num (int (B - 1)), bufferIterator = it,
                batch = map snd (take (nat (batchSize opts)) (jsmap_entries (buffer (db sys))))\<rparr>
               (put_request opts
                  (map snd (take (nat (batchSize opts)) (jsmap_entries (buffer (db sys)))))),
             (db sys)\<lparr>flushing := True\<rparr>))) \<and>
   issued sys' =
     issued sys @
     map (\<lambda>i. put_request opts
            (map snd (take (nat (batchSize opts))
               (drop (i * nat (batchSize opts)) (jsmap_entries (buffer (db sys)))))))
       [0..<B] \<and>
   jsmap_entries (buffer (db sys')) =
     drop (B * nat (batchSize opts)) (jsmap_entries (buffer (db sys))) \<and>
   suspended sys' = [] \<and> \<not> flushing (db sys') \<and>
   (batchSize opts = 10 \<and> jsmap_size (buffer (db sys)) = 25 \<and> now \<le> flushExpiry (db sys) \<longrightarrow>
      map (\<lambda>r. length (req_body r)) (drop (length (issued sys)) (issued sys')) = [10, 10] \<and>
      jsmap_size (buffer (db sys')) = 5)"
proof
  assume h: "options (db sys) = Some opts \<and> 0 < batchSize opts \<and> suspended sys = [] \<and>
   \<not> flushing (db sys) \<and> buffer_ok (buffer (db sys)) \<and>
   (\<forall>r \<in> set rs. 200 \<le> snd r \<and> snd r < 300) \<and>
   B = jsmap_size (buffer (db sys)) div nat (batchSize opts) +
         (if now > flushExpiry (db sys) then 1 else 0) \<and>
   B \<le> length rs \<and>
   sys' = run stringify (Stop now # map (\<lambda>r. Settle 0 (fst r) (Resolved (snd r))) rs) sys"
  let ?k = "nat (batchSize opts)"
  let ?es = "jsmap_entries (buffer (db sys))"
  let ?f = "\<lambda>i. put_request opts (map snd (take ?k (drop (i * ?k) ?es)))"
  from h have d: "flush_done opts ?es B (issued sys) sys'"
    using flush_run [of sys opts B now rs stringify] by blast
  have p: "\<exists>it. flush now (db sys) =
      (if B = 0 then (Finished None, flush_finally now ((db sys)\<lparr>flushing := True\<rparr>))
       else (Awaiting
               \<lparr>batches = Num (int (B - 1)), bufferIterator = it,
                batch = map snd (take ?k ?es)\<rparr>
               (put_request opts (map snd (take ?k ?es))),
             (db sys)\<lparr>flushing := True\<rparr>))"
  proof -
    from h have o: "options (db sys) = Some opts" and bs: "0 < batchSize opts"
      and nf: "\<not> flushing (db sys)"
      and B: "B = jsmap_size (buffer (db sys)) div nat (batchSize opts) +
                (if now > flushExpiry (db sys) then 1 else 0)"
      by blast+
    from flush_plans [OF o bs nf B] show ?thesis
      by (simp only: chunk_def mult_zero_left drop_0)
  qed
  have a: "issued sys' = issued sys @ map ?f [0..<B]"
    using d by (simp add: flush_done_def chunk_def)
  have b: "jsmap_entries (buffer (db sys')) = drop (B * ?k) ?es"
    using d by (simp add: flush_done_def)
  have c: "suspended sys' = [] \<and> \<not> flushing (db sys')"
    using d by (simp add: flush_done_def)
  have e: "map (\<lambda>r. length (req_body r)) (drop (length (issued sys)) (issued sys')) = [10, 10] \<and>
      jsmap_size (buffer (db sys')) = 5"
    if s: "batchSize opts = 10 \<and> jsmap_size (buffer (db sys)) = 25 \<and> now \<le> flushExpiry (db sys)"
  proof -
    from s h have B2: "B = 2" by simp
    from s have k: "?k = 10" and n: "length ?es = 25" by (simp_all add: jsmap_size_def)
    have u: "[0..<2] = [0, Suc 0]" by (simp add: numeral_2_eq_2)
    have "map (\<lambda>r. length (req_body r)) (map ?f [0..<B]) = [10, 10]"
      by (simp add: B2 u k n put_request_def)
    moreover have "jsmap_size (buffer (db sys')) = 5"
      by (simp add: jsmap_size_def b B2 k n)
    ultimately show ?thesis by (simp add: a)
  qed
  from p a b c e show "(\<exists>it. flush now (db sys) =
      (if B = 0 then (Finished None, flush_finally now ((db sys)\<lparr>flushing := True\<rparr>))
       else (Awaiting
               \<lparr>batches = Num (int (B - 1)), bufferIterator = it,
                batch = map snd (take ?k ?es)\<rparr>
               (put_request opts (map snd (take ?k ?es))),
             (db sys)\<lparr>flushing := True\<rparr>))) \<and>
   issued sys' = issued sys @ map ?f [0..<B] \<and>
   jsmap_entries (buffer (db sys')) = drop (B * ?k) ?es \<and>
   suspended sys' = [] \<and> \<not> flushing (db sys') \<and>
   (batchSize opts = 10 \<and> jsmap_size (buffer (db sys)) = 25 \<and> now \<le> flushExpiry (db sys) \<longrightarrow>
      map (\<lambda>r. length (req_body r)) (drop (length (issued sys)) (issued sys')) = [10, 10] \<and>
      jsmap_size (buffer (db sys')) = 5)"
    by blast
qed

theorem flush_batches_witness:
  "options (db sample_backlog) = Some (sample_options\<lparr>batchSize := 10, maxBuffer := 100\<rparr>) \<and>
   suspended sample_backlog = [] \<and> \<not> flushing (db sample_backlog) \<and>
   buffer_ok (buffer (db sample_backlog)) \<and>
   jsmap_size (buffer (db sample_backlog)) = 25 \<and>
   flushExpiry (db sample_backlog) = 60026 \<and>
   map (\<lambda>r. length (req_body r))
     (drop (length (issued sample_backlog))
        (issued (run sample_stringify
           [Stop 27, Settle 0 28 (Resolved 200), Settle 0 29 (Resolved 204)] sample_backlog))) =
     [10, 10] \<and>
   jsmap_size (buffer (db (run sample_stringify
           [Stop 27, Settle 0 28 (Resolved 200), Settle 0 29 (Resolved 204)] sample_backlog))) = 5"
proof -
  let ?opts = "sample_options\<lparr>batchSize := 10, maxBuffer := 100\<rparr>"
  let ?rs = "[(28, 200), (29, 204)] :: (int \<times> int) list"
  let ?sys' = "run sample_stringify
           [Stop 27, Settle 0 28 (Resolved 200), Settle 0 29 (Resolved 204)] sample_backlog"
  have o: "options (db sample_backlog) = Some ?opts" by code_simp
  have s: "suspended sample_backlog = []" by code_simp
  have f: "\<not> flushing (db sample_backlog)" by code_simp
  have b: "buffer_ok (buffer (db sample_backlog))" by code_simp
  have n: "jsmap_size (buffer (db sample_backlog)) = 25" by code_simp
  have x: "flushExpiry (db sample_backlog) = 60026" by code_simp
  have bs: "batchSize ?opts = 10" by (simp add: sample_options_def)
  have r: "\<forall>r \<in> set ?rs. 200 \<le> snd r \<and> snd r < 300" by simp
  have B: "(2::nat) = jsmap_size (buffer (db sample_backlog)) div nat (batchSize ?opts) +
         (if 27 > flushExpiry (db sample_backlog) then 1 else 0)"
    by (simp add: n x bs)
  have ev: "?sys' = run sample_stringify
      (Stop 27 # map (\<lambda>r. Settle 0 (fst r) (Resolved (snd r))) ?rs) sample_backlog"
    by simp
  have bs0: "0 < batchSize ?opts" by (simp add: bs)
  have le: "27 \<le> flushExpiry (db sample_backlog)" by (simp add: x)
  note inst = flush_batches [where sys = sample_backlog and opts = ?opts and rs = ?rs
      and B = 2 and now = 27 and sys' = ?sys' and stringify = sample_stringify]
  have len: "2 \<le> length ?rs" by simp
  note concl = mp [OF inst, OF conjI [OF o conjI [OF bs0 conjI [OF s conjI [OF f
      conjI [OF b conjI [OF r conjI [OF B conjI [OF len ev]]]]]]]]]
  note scenario =
    concl [THEN conjunct2, THEN conjunct2, THEN conjunct2, THEN conjunct2, THEN conjunct2]
  note fin = mp [OF scenario, OF conjI [OF bs conjI [OF n le]]]
  from fin o s f b n x show ?thesis by blast
qed

end
